theory Spec2Isabelle
  imports Main
begin

section \<open>Python text primitives\<close>

text \<open>
  A Python \<open>str\<close> is a sequence of Unicode code points. Texts are modelled as
  \<^typ>\<open>string\<close>, and a \<^typ>\<open>char\<close> is read as the code point of the same number
  (0 to 255). The character classes below are those of CPython for that range:
  \<open>str.isspace\<close> (used by \<open>strip\<close>, \<open>split()\<close> and the pattern \<open>\s\<close>),
  \<open>str.lower\<close>, and the word characters of the pattern \<open>\w\<close>. Texts with code
  points beyond 255 are outside the model.
\<close>

definition isspace :: "char \<Rightarrow> bool" where
  "isspace c =
     (let n = (of_char c :: nat)
      in (9 \<le> n \<and> n \<le> 13) \<or> (28 \<le> n \<and> n \<le> 32) \<or> n = 133 \<or> n = 160)"

definition lstrip :: "string \<Rightarrow> string" where
  "lstrip s = dropWhile isspace s"

definition rstrip :: "string \<Rightarrow> string" where
  "rstrip s = rev (dropWhile isspace (rev s))"

definition strip :: "string \<Rightarrow> string" where
  "strip s = rstrip (lstrip s)"

definition lower_char :: "char \<Rightarrow> char" where
  "lower_char c =
     (let n = (of_char c :: nat)
      in if (65 \<le> n \<and> n \<le> 90) \<or> (192 \<le> n \<and> n \<le> 222 \<and> n \<noteq> 215)
         then char_of (n + 32) else c)"

definition lower :: "string \<Rightarrow> string" where
  "lower s = map lower_char s"

definition startswith :: "string \<Rightarrow> string \<Rightarrow> bool" where
  "startswith s p = (take (length p) s = p)"

definition endswith :: "string \<Rightarrow> string \<Rightarrow> bool" where
  "endswith s p = (take (length p) (rev s) = rev p)"

text \<open>\<open>sub in s\<close>: \<open>sub\<close> occurs in \<open>s\<close> as a contiguous substring.\<close>

fun contains :: "string \<Rightarrow> string \<Rightarrow> bool" where
  "contains sub [] = (sub = [])"
| "contains sub (c # cs) = (startswith (c # cs) sub \<or> contains sub cs)"


section \<open>Replies\<close>

text \<open>
  Every reply of the program is a fixed text or a fixed prefix followed by a value. The
  replies are kept apart as constructors; the comment gives the text of each, where
  (check) is the symbol U+2713, (cross) is U+2717, (warning) is U+26A0 U+FE0F and
  (cross mark) is U+274C. The program only tests a reply for being empty.
\<close>

datatype py_exception =
    SyntaxError
  | ZeroDivisionError
  | IndexError
  | NameError
  | TypeError
  | Other_exception string

datatype py_value =
    PyInt int
  | PyBool bool
  | PyNone
  | Opaque string

datatype re_error = Re_error string

datatype reply =
    Conversation_cleared      \<comment> \<open>"(check) Conversation cleared"\<close>
  | Help_text                 \<comment> \<open>the text of \<open>_help_text\<close>\<close>
  | Not_configured            \<comment> \<open>"(warning) Perplexity API not configured. Set PERPLEXITY_API_KEY."\<close>
  | No_response               \<comment> \<open>"External API didn't respond."\<close>
  | External string           \<comment> \<open>the message content of the API response\<close>
  | Perplexity_unavailable    \<comment> \<open>"(cross mark) Perplexity API not available or key missing."\<close>
  | No_message_content        \<comment> \<open>"(warning) No message content in API response."\<close>
  | Api_error nat string      \<comment> \<open>"(cross mark) API error " with the status and the response text\<close>
  | Perplexity_exception string  \<comment> \<open>"(warning) Exception while calling Perplexity: " with the exception\<close>
  | Empty_sentence            \<comment> \<open>"(cross) Empty sentence."\<close>
  | Valid_sentence            \<comment> \<open>"(check) Valid English sentence."\<close>
  | Likely_valid              \<comment> \<open>"(check) Likely valid sentence."\<close>
  | Grammatically_incorrect   \<comment> \<open>"(cross) Grammatically incorrect."\<close>
  | Too_short                 \<comment> \<open>"(cross) Too short to be valid."\<close>
  | Probably_valid            \<comment> \<open>"(check) Probably valid English sentence."\<close>
  | Seems_incomplete          \<comment> \<open>"(cross) Seems incomplete or incorrect."\<close>
  | Invalid_input             \<comment> \<open>"Invalid input: use only 0 and 1"\<close>
  | Accepted                  \<comment> \<open>"(check) Accepted"\<close>
  | Rejected                  \<comment> \<open>"(cross) Rejected"\<close>
  | Balanced                  \<comment> \<open>"(check) Balanced"\<close>
  | Unbalanced                \<comment> \<open>"(cross) Unbalanced"\<close>
  | Match                     \<comment> \<open>"(check) Match"\<close>
  | No_match                  \<comment> \<open>"(cross) No match"\<close>
  | Regex_error re_error      \<comment> \<open>"Regex error: " followed by the error\<close>
  | Result py_value           \<comment> \<open>"Result: " followed by the value\<close>
  | Math_error py_exception   \<comment> \<open>"Math error: " followed by the exception\<close>
  | Fallback_text             \<comment> \<open>the text of \<open>_fallback_text\<close>\<close>


section \<open>SpecializedEngine: the automaton checks\<close>

text \<open>\<open>re.fullmatch(r"[01]+", binary)\<close>: one or more characters, each \<open>0\<close> or \<open>1\<close>.\<close>

definition fullmatch_binary :: "string \<Rightarrow> bool" where
  "fullmatch_binary binary =
     (binary \<noteq> [] \<and> list_all (\<lambda>c. c = CHR ''0'' \<or> c = CHR ''1'') binary)"

definition check_dfa_ends_01 :: "string \<Rightarrow> reply" where
  "check_dfa_ends_01 binary =
     (if \<not> fullmatch_binary binary then Invalid_input
      else if endswith binary ''01'' then Accepted else Rejected)"

text \<open>
  The loop of \<open>check_pda_balanced\<close> with its stack: \<open>append\<close> adds at the end of the
  list, \<open>pop\<close> removes the last element, and a closing parenthesis on the empty stack
  returns at once.
\<close>

fun pda_loop :: "char list \<Rightarrow> string \<Rightarrow> reply" where
  "pda_loop stack [] = (if stack = [] then Balanced else Unbalanced)"
| "pda_loop stack (ch # rest) =
     (if ch = CHR ''('' then pda_loop (stack @ [ch]) rest
      else if ch = CHR '')'' then
        (if stack = [] then Unbalanced else pda_loop (butlast stack) rest)
      else pda_loop stack rest)"

definition check_pda_balanced :: "string \<Rightarrow> reply" where
  "check_pda_balanced expr = pda_loop [] expr"


section \<open>DialogueManager\<close>

datatype role = User | Assistant

datatype message = Text string | Reply reply

record turn =
  role :: role
  message :: message
  timestamp :: string

text \<open>
  \<open>deque(maxlen=30)\<close>: \<open>append\<close> adds on the right and, when the deque then holds
  more than \<open>maxlen\<close> items, removes one from the left.
\<close>

definition maxlen :: nat where
  "maxlen = 30"

definition deque_append :: "'a list \<Rightarrow> 'a \<Rightarrow> 'a list" where
  "deque_append xs x = (let ys = xs @ [x] in if length ys > maxlen then tl ys else ys)"

record dialogue_manager =
  history :: "turn list"

definition new_dialogue :: dialogue_manager where
  "new_dialogue = \<lparr>history = []\<rparr>"

text \<open>\<open>now\<close> is the reading of \<open>datetime.now().isoformat()\<close> at the call.\<close>

definition add :: "dialogue_manager \<Rightarrow> role \<Rightarrow> message \<Rightarrow> string \<Rightarrow> dialogue_manager" where
  "add d r m now =
     d\<lparr>history := deque_append (history d) \<lparr>role = r, message = m, timestamp = now\<rparr>\<rparr>"

definition get_history :: "dialogue_manager \<Rightarrow> turn list" where
  "get_history d = history d"

definition clear :: "dialogue_manager \<Rightarrow> dialogue_manager" where
  "clear d = d\<lparr>history := []\<rparr>"

text \<open>A sequence of calls on one dialogue manager.\<close>

datatype dialogue_op = Add role message string | Clear

fun apply_dialogue_op :: "dialogue_manager \<Rightarrow> dialogue_op \<Rightarrow> dialogue_manager" where
  "apply_dialogue_op d (Add r m now) = add d r m now"
| "apply_dialogue_op d Clear = clear d"

definition run_dialogue :: "dialogue_manager \<Rightarrow> dialogue_op list \<Rightarrow> dialogue_manager" where
  "run_dialogue d ops = foldl apply_dialogue_op d ops"

text \<open>The call \<open>add(role, message)\<close> that records a given turn.\<close>

definition add_of :: "turn \<Rightarrow> dialogue_op" where
  "add_of t = Add (role t) (message t) (timestamp t)"

definition is_paren :: "char \<Rightarrow> bool" where
  "is_paren c = (c = CHR ''('' \<or> c = CHR '')'')"

definition sample_turn :: "nat \<Rightarrow> turn" where
  "sample_turn n = \<lparr>role = User, message = Text (replicate n CHR ''a''), timestamp = []\<rparr>"


section \<open>IntentClassifier\<close>

datatype intent = Help | Command | Daily | Parse | Dfa | Pda | Regex | Math | General

text \<open>
  A parameter dictionary, as the list of its items in insertion order; \<open>get\<close> is
  \<open>dict.get(key, default)\<close>.
\<close>

type_synonym params = "(string \<times> string) list"

definition get :: "params \<Rightarrow> string \<Rightarrow> string \<Rightarrow> string" where
  "get ps key dflt = (case map_of ps key of Some v \<Rightarrow> v | None \<Rightarrow> dflt)"

text \<open>\<open>xs[i]\<close>: an index out of range raises \<open>IndexError\<close>.\<close>

definition item :: "'a list \<Rightarrow> nat \<Rightarrow> py_exception + 'a" where
  "item xs i = (if i < length xs then Inr (xs ! i) else Inl IndexError)"

text \<open>\<open>s.split(sep, 1)\<close> for a one-character separator: split at its first occurrence.\<close>

definition split_once :: "char \<Rightarrow> string \<Rightarrow> string list" where
  "split_once sep s =
     (if sep \<in> set s
      then [takeWhile (\<lambda>c. c \<noteq> sep) s, tl (dropWhile (\<lambda>c. c \<noteq> sep) s)]
      else [s])"

text \<open>\<open>s.split(sep)\<close> for a one-character separator: split at every occurrence.\<close>

fun split_all :: "char \<Rightarrow> string \<Rightarrow> string list" where
  "split_all sep [] = [[]]"
| "split_all sep (c # cs) =
     (if c = sep then [] # split_all sep cs
      else (case split_all sep cs of
              [] \<Rightarrow> [[c]]
            | p # ps \<Rightarrow> (c # p) # ps))"

text \<open>\<open>sep.join(parts)\<close>.\<close>

fun join :: "string \<Rightarrow> string list \<Rightarrow> string" where
  "join sep [] = []"
| "join sep [p] = p"
| "join sep (p # q # ps) = p @ sep @ join sep (q # ps)"

text \<open>
  A literal of lower-case letters matched under \<open>re.IGNORECASE\<close> at the start of a
  text; the result is the text after the match.
\<close>

fun match_ignorecase :: "string \<Rightarrow> string \<Rightarrow> string option" where
  "match_ignorecase [] s = Some s"
| "match_ignorecase (p # ps) [] = None"
| "match_ignorecase (p # ps) (c # cs) =
     (if lower_char c = p then match_ignorecase ps cs else None)"

text \<open>
  The pattern \<open>string\s*:\s*(.*)\Z\<close> with \<open>IGNORECASE | DOTALL\<close>, matched at the start
  of a text; the result is group 1. Both \<open>\s*\<close> are greedy and what follows each of
  them cannot start with white space or is \<open>.*\<close>, which takes all the rest: the first
  run of white space is consumed whole before the colon, the second before the group.
\<close>

definition match_string_field :: "string \<Rightarrow> string option" where
  "match_string_field s =
     (case match_ignorecase ''string'' s of
        None \<Rightarrow> None
      | Some r \<Rightarrow>
          (case dropWhile isspace r of
             [] \<Rightarrow> None
           | c # r' \<Rightarrow> if c = CHR '':'' then Some (dropWhile isspace r') else None))"

text \<open>\<open>re.search\<close> tries the start positions from left to right.\<close>

fun search_string_field :: "string \<Rightarrow> string option" where
  "search_string_field [] = match_string_field []"
| "search_string_field (c # cs) =
     (case match_string_field (c # cs) of
        Some g \<Rightarrow> Some g
      | None \<Rightarrow> search_string_field cs)"

text \<open>
  \<open>re.match(r"^[\d\+\-\*/\(\)\.\^ %]+$", l)\<close>: a non-empty run of characters of the
  class up to the end of the text, or up to a newline that ends the text (where \<open>$\<close>
  matches too).
\<close>

definition isdigit :: "char \<Rightarrow> bool" where
  "isdigit c = (let n = (of_char c :: nat) in 48 \<le> n \<and> n \<le> 57)"

definition is_math_char :: "char \<Rightarrow> bool" where
  "is_math_char c = (isdigit c \<or> c \<in> set ''+-*/().^ %'')"

definition match_math :: "string \<Rightarrow> bool" where
  "match_math l =
     (let r = dropWhile is_math_char l
      in takeWhile is_math_char l \<noteq> [] \<and> (r = [] \<or> r = [CHR 0x0A]))"

text \<open>The body of the \<open>try\<close> in the \<open>regex:\<close> branch.\<close>

definition classify_regex :: "string \<Rightarrow> py_exception + (intent \<times> params)" where
  "classify_regex t =
     (case item (split_once CHR '':'' t) 1 of
        Inl e \<Rightarrow> Inl e
      | Inr tail \<Rightarrow>
          (let parts = split_all CHR '';'' tail in
           case item parts 0 of
             Inl e \<Rightarrow> Inl e
           | Inr p0 \<Rightarrow>
               (let pattern = strip p0;
                    rest = join '';'' (drop 1 parts);
                    m = search_string_field rest;
                    s = (case m of Some g \<Rightarrow> strip g | None \<Rightarrow> [])
                in Inr (Regex, [(''pattern'', pattern), (''string'', s)]))))"

text \<open>The text after the first colon, stripped, under the given key.\<close>

definition after_colon :: "intent \<Rightarrow> string \<Rightarrow> string \<Rightarrow> py_exception + (intent \<times> params)" where
  "after_colon tag key t =
     (case item (split_once CHR '':'' t) 1 of
        Inl e \<Rightarrow> Inl e
      | Inr x \<Rightarrow> Inr (tag, [(key, strip x)]))"

definition classify :: "string \<Rightarrow> py_exception + (intent \<times> params)" where
  "classify text =
     (let t = strip text; l = lower t in
      if l = ''help'' then Inr (Help, [])
      else if l = ''clear'' then Inr (Command, [(''cmd'', ''clear'')])
      else if contains ''daily conversation'' l \<or> contains ''everyday chat'' l
        then Inr (Daily, [(''message'', t)])
      else if startswith l ''parse:'' then after_colon Parse ''sentence'' t
      else if startswith l ''dfa:'' then after_colon Dfa ''input'' t
      else if startswith l ''pda:'' then after_colon Pda ''input'' t
      else if startswith l ''regex:'' then
        (case classify_regex t of
           Inl e \<Rightarrow> Inr (General, [])
         | Inr r \<Rightarrow> Inr r)
      else if match_math l then Inr (Math, [(''expression'', t)])
      else Inr (General, []))"

text \<open>
  The reading of claim C5 of the \<open>string\<close> parameter: what follows the final
  occurrence of \<open>string:\<close> (in any case) in the rest, stripped; empty when \<open>string:\<close>
  does not occur.
\<close>

fun after_final_ignorecase :: "string \<Rightarrow> string \<Rightarrow> string option" where
  "after_final_ignorecase marker [] = match_ignorecase marker []"
| "after_final_ignorecase marker (c # cs) =
     (case after_final_ignorecase marker cs of
        Some a \<Rightarrow> Some a
      | None \<Rightarrow> match_ignorecase marker (c # cs))"

definition string_after_final_marker :: "string \<Rightarrow> string" where
  "string_after_final_marker rest =
     (case after_final_ignorecase ''string:'' rest of
        Some a \<Rightarrow> strip a
      | None \<Rightarrow> [])"


text \<open>
  An occurrence of the field marker at position \<open>i\<close> of a text, followed by \<open>v\<close>: the
  letters of \<open>string\<close> in any case, then any white space, then a colon, then \<open>v\<close>.
\<close>

definition string_field_at :: "string \<Rightarrow> nat \<Rightarrow> string \<Rightarrow> bool" where
  "string_field_at rest i v \<longleftrightarrow>
     i \<le> length rest \<and>
     (\<exists>w sp. drop i rest = w @ sp @ '':'' @ v \<and> lower w = ''string'' \<and> list_all isspace sp)"


section \<open>SpecializedEngine: the sentence check\<close>

text \<open>
  What the tagger gives for a token: its part of speech (\<open>pos_\<close>) and its dependency
  role (\<open>dep_\<close>). The tagger is \<open>self.nlp\<close>, \<open>None\<close> when it could not be loaded; an
  exception it raises is not caught by \<open>parse_sentence\<close>.
\<close>

record token =
  pos :: string
  dep :: string

type_synonym tagger = "string \<Rightarrow> py_exception + token list"

text \<open>
  \<open>s.split()\<close>: the maximal runs of characters that are not white space. \<open>cur\<close> is the
  run being read.
\<close>

fun split_ws_from :: "string \<Rightarrow> string \<Rightarrow> string list" where
  "split_ws_from cur [] = (if cur = [] then [] else [cur])"
| "split_ws_from cur (c # cs) =
     (if isspace c then (if cur = [] then split_ws_from [] cs else cur # split_ws_from [] cs)
      else split_ws_from (cur @ [c]) cs)"

definition split_ws :: "string \<Rightarrow> string list" where
  "split_ws s = split_ws_from [] s"

text \<open>The word characters of \<open>\w\<close>: alphanumeric characters and the underscore.\<close>

definition is_word_char :: "char \<Rightarrow> bool" where
  "is_word_char c =
     (let n = (of_char c :: nat)
      in (48 \<le> n \<and> n \<le> 57) \<or> (65 \<le> n \<and> n \<le> 90) \<or> n = 95 \<or> (97 \<le> n \<and> n \<le> 122) \<or>
         n = 170 \<or> n = 178 \<or> n = 179 \<or> n = 181 \<or> n = 185 \<or> n = 186 \<or>
         (188 \<le> n \<and> n \<le> 190) \<or> (192 \<le> n \<and> n \<le> 214) \<or> (216 \<le> n \<and> n \<le> 246) \<or>
         (248 \<le> n \<and> n \<le> 255))"

text \<open>
  \<open>\b\<close> at a position, given the character before it and the character after it
  (\<open>None\<close> at the start and at the end of the text): exactly one of the two is a word
  character.
\<close>

definition is_word :: "char option \<Rightarrow> bool" where
  "is_word x = (case x of None \<Rightarrow> False | Some c \<Rightarrow> is_word_char c)"

definition word_boundary :: "char option \<Rightarrow> char option \<Rightarrow> bool" where
  "word_boundary prev nxt = (is_word prev \<noteq> is_word nxt)"

definition first_char :: "string \<Rightarrow> char option" where
  "first_char s = (case s of [] \<Rightarrow> None | c # cs \<Rightarrow> Some c)"

text \<open>
  A literal followed by \<open>\b\<close>, matched at the start of a text whose previous character
  is \<open>prev\<close>.
\<close>

fun match_word :: "char option \<Rightarrow> string \<Rightarrow> string \<Rightarrow> bool" where
  "match_word prev [] s = word_boundary prev (first_char s)"
| "match_word prev (p # ps) [] = False"
| "match_word prev (p # ps) (c # cs) = (c = p \<and> match_word (Some c) ps cs)"

text \<open>
  \<open>re.search\<close> of \<open>\b(w1|w2|...)\b\<close>: at each start position from left to right, the
  boundary, then the alternatives in order, each followed by the boundary.
\<close>

fun search_words :: "string list \<Rightarrow> char option \<Rightarrow> string \<Rightarrow> bool" where
  "search_words ws prev [] =
     (word_boundary prev None \<and> list_ex (\<lambda>w. match_word prev w []) ws)"
| "search_words ws prev (c # cs) =
     ((word_boundary prev (Some c) \<and> list_ex (\<lambda>w. match_word prev w (c # cs)) ws)
      \<or> search_words ws (Some c) cs)"

definition aux_verbs :: "string list" where
  "aux_verbs =
     [''am'', ''is'', ''are'', ''was'', ''were'', ''be'', ''been'', ''being'', ''do'', ''does'',
      ''did'', ''have'', ''has'', ''had'', ''will'', ''would'', ''shall'', ''should'', ''can'',
      ''could'', ''may'', ''might'', ''must'']"

definition search_aux_verb :: "string \<Rightarrow> bool" where
  "search_aux_verb s = search_words aux_verbs None s"

definition parse_sentence :: "tagger option \<Rightarrow> string \<Rightarrow> py_exception + reply" where
  "parse_sentence nlp sentence =
     (let s = strip sentence in
      if s = [] then Inr Empty_sentence
      else
        (case nlp of
           Some tag \<Rightarrow>
             (case tag s of
                Inl e \<Rightarrow> Inl e
              | Inr doc \<Rightarrow>
                  (let deps = map (\<lambda>t. lower (dep t)) doc;
                       poss = map pos doc;
                       has_verb = list_ex (\<lambda>p. p = ''VERB'' \<or> p = ''AUX'') poss;
                       has_subject =
                         list_ex (\<lambda>d. d \<in> set [''nsubj'', ''nsubjpass'', ''csubj'', ''expl'']) deps
                   in if has_subject \<and> has_verb then Inr Valid_sentence
                      else if has_verb then Inr Likely_valid
                      else Inr Grammatically_incorrect))
         | None \<Rightarrow>
             (let tokens = split_ws s in
              if length tokens < 3 then Inr Too_short
              else if search_aux_verb (lower s) then Inr Probably_valid
              else Inr Seems_incomplete)))"

text \<open>
  A word occurs in a text as a whole word: the text is \<open>u @ w @ v\<close> where \<open>u\<close> is empty
  or ends with a character that is not a word character, and \<open>v\<close> is empty or starts
  with one.
\<close>

definition occurs_as_word :: "string \<Rightarrow> string \<Rightarrow> bool" where
  "occurs_as_word w s \<longleftrightarrow>
     (\<exists>u v. s = u @ w @ v \<and> (u = [] \<or> \<not> is_word_char (last u))
                          \<and> (v = [] \<or> \<not> is_word_char (hd v)))"


text \<open>
  The character before a position that lies after \<open>u\<close>, in a text whose previous
  character is \<open>prev\<close>.
\<close>

definition prev_char :: "char option \<Rightarrow> string \<Rightarrow> char option" where
  "prev_char prev u = (if u = [] then prev else Some (last u))"

text \<open>
  An occurrence of \<open>w\<close> in \<open>s\<close>, after \<open>u\<close> and before \<open>v\<close>, with \<open>\b\<close> on both
  sides.
\<close>

definition occurs_between :: "char option \<Rightarrow> string \<Rightarrow> string \<Rightarrow> string \<Rightarrow> string \<Rightarrow> bool" where
  "occurs_between prev s w u v \<longleftrightarrow>
     s = u @ w @ v \<and>
     word_boundary (prev_char prev u) (first_char (w @ v)) \<and>
     word_boundary (prev_char (prev_char prev u) w) (first_char v)"


section \<open>The environment\<close>

text \<open>
  What the program takes from outside: the flags set by the imports at the top of the
  module, and the library calls whose results the program only passes on.
  \<^item> \<open>requests_post\<close>: the \<open>try\<close> block of \<open>PerplexityClient.chat\<close> after the
    messages are built, for a key and the messages: the content of the first choice
    of a response with status 200, no content, another status, or an exception.
  \<^item> \<open>re_fullmatch\<close>: \<open>re.fullmatch(pattern, text)\<close>: a match or none, \<open>re.error\<close>, or
    another exception (an \<open>OverflowError\<close> for a repetition count that is too large,
    for one).
  \<^item> \<open>sympify_N\<close>: \<open>sp.N(sp.sympify(e))\<close>, formatted; \<open>eval_no_builtins\<close>:
    \<open>eval(e, {"__builtins__": {}})\<close>, formatted; each gives the value or the
    exception raised.
\<close>

datatype http_outcome =
    Content string
  | No_content
  | Bad_status nat string
  | Call_exception string

datatype re_outcome =
    Re_match bool
  | Re_raises_error re_error
  | Re_raises py_exception

record environment =
  REQUESTS_AVAILABLE :: bool
  SYMPY_AVAILABLE :: bool
  requests_post :: "string \<Rightarrow> (role \<times> message) list \<Rightarrow> http_outcome"
  re_fullmatch :: "string \<Rightarrow> string \<Rightarrow> re_outcome"
  sympify_N :: "string \<Rightarrow> py_exception + py_value"
  eval_no_builtins :: "string \<Rightarrow> py_exception + py_value"


section \<open>SpecializedEngine: the pattern test and the arithmetic\<close>

record specialized_engine =
  nlp :: "tagger option"

text \<open>Only \<open>re.error\<close> is caught; any other exception leaves \<open>test_regex\<close>.\<close>

definition test_regex :: "environment \<Rightarrow> string \<Rightarrow> string \<Rightarrow> py_exception + reply" where
  "test_regex env pattern txt =
     (case re_fullmatch env pattern txt of
        Re_match m \<Rightarrow> Inr (if m then Match else No_match)
      | Re_raises_error e \<Rightarrow> Inr (Regex_error e)
      | Re_raises x \<Rightarrow> Inl x)"

text \<open>\<open>expr.replace('^', '**')\<close>.\<close>

definition replace_caret :: "string \<Rightarrow> string" where
  "replace_caret expr = concat (map (\<lambda>c. if c = CHR ''^'' then ''**'' else [c]) expr)"

definition evaluate_math :: "environment \<Rightarrow> string \<Rightarrow> reply" where
  "evaluate_math env expr =
     (let expr_mod = replace_caret expr in
      if SYMPY_AVAILABLE env then
        (case sympify_N env expr_mod of
           Inr v \<Rightarrow> Result v
         | Inl e \<Rightarrow> Math_error e)
      else
        (case eval_no_builtins env expr_mod of
           Inr result \<Rightarrow> Result result
         | Inl e \<Rightarrow> Math_error e))"


section \<open>PerplexityClient\<close>

text \<open>\<open>api_key\<close> is the argument of the constructor or else the environment variable.\<close>

record perplexity_client =
  api_key :: "string option"

definition is_available :: "environment \<Rightarrow> perplexity_client \<Rightarrow> bool" where
  "is_available env c =
     ((case api_key c of None \<Rightarrow> False | Some k \<Rightarrow> k \<noteq> []) \<and> REQUESTS_AVAILABLE env)"

text \<open>A stored message is skipped when its text is empty.\<close>

definition message_empty :: "message \<Rightarrow> bool" where
  "message_empty m =
     (case m of
        Text s \<Rightarrow> s = []
      | Reply r \<Rightarrow> (case r of External s \<Rightarrow> s = [] | _ \<Rightarrow> False))"

definition perplexity_chat ::
    "environment \<Rightarrow> perplexity_client \<Rightarrow> string \<Rightarrow> turn list \<Rightarrow> reply" where
  "perplexity_chat env c msg hist =
     (if \<not> is_available env c then Perplexity_unavailable
      else
        (case api_key c of
           None \<Rightarrow> Perplexity_unavailable
         | Some k \<Rightarrow>
             (let recent = drop (length hist - 8) hist;
                  msgs = map (\<lambda>h. (if role h = User then User else Assistant, message h))
                           (filter (\<lambda>h. \<not> message_empty (message h)) recent)
                         @ [(User, Text msg)]
              in case requests_post env k msgs of
                   Content body \<Rightarrow> External body
                 | No_content \<Rightarrow> No_message_content
                 | Bad_status st body \<Rightarrow> Api_error st (take 200 body)
                 | Call_exception e \<Rightarrow> Perplexity_exception e)))"


section \<open>HybridChatbot\<close>

record hybrid_chatbot =
  perplexity :: perplexity_client
  engine :: specialized_engine
  dialogue :: dialogue_manager

text \<open>The two \<open>add\<close> calls that end a turn; \<open>now1\<close> and \<open>now2\<close> are their clock readings.\<close>

definition record_turn ::
    "hybrid_chatbot \<Rightarrow> string \<Rightarrow> reply \<Rightarrow> string \<Rightarrow> string \<Rightarrow> hybrid_chatbot" where
  "record_turn cb txt reply now1 now2 =
     cb\<lparr>dialogue := add (add (dialogue cb) User (Text txt) now1) Assistant (Reply reply) now2\<rparr>"

text \<open>
  \<open>chat\<close> returns the reply and the chatbot after the call, or the exception that left
  the call.
\<close>

definition chat ::
    "environment \<Rightarrow> hybrid_chatbot \<Rightarrow> string \<Rightarrow> string \<Rightarrow> string
       \<Rightarrow> py_exception + (reply \<times> hybrid_chatbot)" where
  "chat env cb txt now1 now2 =
     (case classify txt of
        Inl e \<Rightarrow> Inl e
      | Inr (intent, params) \<Rightarrow>
          if intent = Command \<and> map_of params ''cmd'' = Some ''clear''
            then Inr (Conversation_cleared, cb\<lparr>dialogue := clear (dialogue cb)\<rparr>)
          else if intent = Help then Inr (Help_text, cb)
          else if intent = Daily then
            (let reply =
               (if is_available env (perplexity cb) then
                  (let reply = perplexity_chat env (perplexity cb) (get params ''message'' txt)
                                 (get_history (dialogue cb))
                   in if reply = External [] then No_response else reply)
                else Not_configured)
             in Inr (reply, record_turn cb txt reply now1 now2))
          else
            (case (if intent = Parse
                     then parse_sentence (nlp (engine cb)) (get params ''sentence'' txt)
                   else if intent = Dfa
                     then Inr (check_dfa_ends_01 (get params ''input'' txt))
                   else if intent = Pda
                     then Inr (check_pda_balanced (get params ''input'' txt))
                   else if intent = Regex
                     then test_regex env (get params ''pattern'' []) (get params ''string'' [])
                   else if intent = Math
                     then Inr (evaluate_math env (get params ''expression'' txt))
                   else Inr Fallback_text) of
               Inl e \<Rightarrow> Inl e
             | Inr reply \<Rightarrow> Inr (reply, record_turn cb txt reply now1 now2)))"

text \<open>
  An environment without the optional libraries and without network, and a chatbot
  without credential and without tagger whose history holds the given turns.
\<close>

definition offline_env :: environment where
  "offline_env =
     \<lparr>REQUESTS_AVAILABLE = False, SYMPY_AVAILABLE = False,
      requests_post = (\<lambda>k msgs. Call_exception []),
      re_fullmatch = (\<lambda>p t. Re_raises_error (Re_error [])),
      sympify_N = (\<lambda>e. Inl SyntaxError),
      eval_no_builtins = (\<lambda>e. Inl SyntaxError)\<rparr>"

definition sample_bot :: "turn list \<Rightarrow> hybrid_chatbot" where
  "sample_bot ts =
     \<lparr>perplexity = \<lparr>api_key = None\<rparr>, engine = \<lparr>nlp = None\<rparr>, dialogue = \<lparr>history = ts\<rparr>\<rparr>"


text \<open>The two turns a call records, and the last \<open>n\<close> items of a list.\<close>

definition user_turn :: "string \<Rightarrow> string \<Rightarrow> turn" where
  "user_turn txt now = \<lparr>role = User, message = Text txt, timestamp = now\<rparr>"

definition assistant_turn :: "reply \<Rightarrow> string \<Rightarrow> turn" where
  "assistant_turn reply now = \<lparr>role = Assistant, message = Reply reply, timestamp = now\<rparr>"

definition last_n :: "nat \<Rightarrow> 'a list \<Rightarrow> 'a list" where
  "last_n n xs = drop (length xs - n) xs"


text \<open>The parameters that go with each intent.\<close>

definition classified :: "string \<Rightarrow> intent \<Rightarrow> params \<Rightarrow> bool" where
  "classified txt i ps \<longleftrightarrow>
     (i = Help \<and> ps = [] \<or>
      i = Command \<and> ps = [(''cmd'', ''clear'')] \<or>
      i = Daily \<and> ps = [(''message'', strip txt)] \<or>
      i = Parse \<and> (\<exists>x. ps = [(''sentence'', x)]) \<or>
      i = Dfa \<and> (\<exists>x. ps = [(''input'', x)]) \<or>
      i = Pda \<and> (\<exists>x. ps = [(''input'', x)]) \<or>
      i = Regex \<and> (\<exists>p s. ps = [(''pattern'', p), (''string'', s)]) \<or>
      i = Math \<and> ps = [(''expression'', strip txt)] \<and> match_math (lower (strip txt)) \<or>
      i = General \<and> ps = [])"


section \<open>The interpreter on arithmetic with names\<close>

text \<open>
  \<open>eval(e, {"__builtins__": {}})\<close> belongs to the interpreter, not to the program. Its
  result is modelled on a fragment only: texts of at most 64 characters made of ASCII
  letters, decimal digits, underscores, spaces and the characters \<open>+ - * / % ( )\<close>,
  read with the grammar of Python expressions (\<open>sum\<close>, \<open>term\<close>, \<open>factor\<close>, \<open>power\<close>,
  \<open>primary\<close>, \<open>atom\<close>) and evaluated on integers, where no name is bound. \<open>None\<close>
  means that the model says nothing: a literal that is not a decimal integer, a
  keyword (but for the two cases below), a name that starts with an underscore (the
  interpreter defines some of them), an empty tuple, a starred argument, a division
  with a float result, a negative exponent, a value of 4300 digits or more (which the
  interpreter may refuse to format).
\<close>

datatype tok =
    NUMBER string
  | NAME string
  | OTHER string
  | PLUS | MINUS | STAR | DOUBLESTAR | SLASH | DOUBLESLASH | PERCENT | LPAR | RPAR

datatype binop = Op_add | Op_sub | Op_mult | Op_div | Op_floordiv | Op_mod | Op_pow

datatype expr =
    Constant int
  | Name string
  | UAdd expr
  | USub expr
  | BinOp expr binop expr
  | Call0 expr
  | Call1 expr expr














definition is_name :: "tok \<Rightarrow> bool" where
  "is_name t = (case t of NAME x \<Rightarrow> True | _ \<Rightarrow> False)"





datatype parse_result = Parsed expr "tok list" | Syntax_error | Not_modelled | Out_of_fuel






text \<open>
  The value of a binary operation on integers: \<open>//\<close> and \<open>%\<close> round towards minus
  infinity, as \<open>div\<close> and \<open>mod\<close> do; a zero divisor raises; \<open>/\<close> with a divisor other
  than zero gives a float, and so does a negative exponent.
\<close>

definition digit_limit :: int where
  "digit_limit = 10 ^ 4300"

definition too_long :: "int \<Rightarrow> bool" where
  "too_long v = (\<bar>v\<bar> \<ge> digit_limit)"






text \<open>Whether an expression reads a name, and whether a parse keeps the names of its tokens.\<close>

fun has_Name :: "expr \<Rightarrow> bool" where
  "has_Name (Constant v) = False"
| "has_Name (Name x) = True"
| "has_Name (UAdd e) = has_Name e"
| "has_Name (USub e) = has_Name e"
| "has_Name (BinOp l b r) = (has_Name l \<or> has_Name r)"
| "has_Name (Call0 f) = has_Name f"
| "has_Name (Call1 f a) = (has_Name f \<or> has_Name a)"

definition keeps_names :: "bool \<Rightarrow> parse_result \<Rightarrow> bool" where
  "keeps_names b res =
     (case res of Parsed e r \<Rightarrow> b \<longrightarrow> has_Name e \<or> list_ex is_name r | _ \<Rightarrow> True)"


section \<open>Properties of the automaton checks\<close>

lemma endswith_iff: "endswith s p \<longleftrightarrow> (\<exists>u. s = u @ p)"
  unfolding endswith_def
  by (metis append_eq_conv_conj length_rev rev_append rev_rev_ident append_take_drop_id)

lemma check_dfa_ends_01_cases:
  "check_dfa_ends_01 s =
     (if s = [] \<or> \<not> set s \<subseteq> {CHR ''0'', CHR ''1''} then Invalid_input
      else if (\<exists>u. s = u @ ''01'') then Accepted else Rejected)"
  by (auto simp: check_dfa_ends_01_def fullmatch_binary_def list_all_iff endswith_iff)

text \<open>
  Claim C3, as stated, fails at the empty string: it consists of no character other than
  \<open>0\<close> and \<open>1\<close> and does not end in \<open>01\<close>, yet the reply is the invalid-input one,
  not the reject one.
\<close>

theorem dfa_empty_not_rejected:
  "set [] \<subseteq> {CHR ''0'', CHR ''1''} \<and> \<not> endswith [] ''01'' \<and>
   check_dfa_ends_01 [] \<noteq> Rejected"
  by (simp add: check_dfa_ends_01_def fullmatch_binary_def endswith_def)

text \<open>
  Claim C3, amended: every string over \<open>0\<close>/\<open>1\<close> that ends in \<open>01\<close> is accepted; every
  non-empty string over \<open>0\<close>/\<open>1\<close> that does not end in \<open>01\<close> is rejected; every string
  with a character other than \<open>0\<close> and \<open>1\<close>, whatever its suffix, and the empty string
  get the invalid-input reply.
\<close>

theorem check_dfa_ends_01_correct:
  "(set s \<subseteq> {CHR ''0'', CHR ''1''} \<and> (\<exists>u. s = u @ ''01'') \<longrightarrow> check_dfa_ends_01 s = Accepted) \<and>
   (s \<noteq> [] \<and> set s \<subseteq> {CHR ''0'', CHR ''1''} \<and> \<not> (\<exists>u. s = u @ ''01'')
      \<longrightarrow> check_dfa_ends_01 s = Rejected) \<and>
   ((\<exists>c \<in> set s. c \<noteq> CHR ''0'' \<and> c \<noteq> CHR ''1'') \<longrightarrow> check_dfa_ends_01 s = Invalid_input) \<and>
   (s = [] \<longrightarrow> check_dfa_ends_01 s = Invalid_input)"
  by (auto simp: check_dfa_ends_01_cases)

theorem check_dfa_ends_01_correct_witness:
  "check_dfa_ends_01 ''1101'' = Accepted \<and> check_dfa_ends_01 ''0110'' = Rejected \<and>
   check_dfa_ends_01 ''0a01'' = Invalid_input \<and> check_dfa_ends_01 [] = Invalid_input"
proof -
  have ends: "\<exists>u. ''1101'' = u @ ''01''" by (rule exI [of _ "''11''"]) simp
  have not_ends: "\<not> (\<exists>u. ''0110'' = u @ ''01'')" by (simp add: endswith_iff [symmetric] endswith_def)
  show ?thesis
    using check_dfa_ends_01_correct [of "''1101''"] check_dfa_ends_01_correct [of "''0110''"]
      check_dfa_ends_01_correct [of "''0a01''"] check_dfa_ends_01_correct [of "[]"]
      ends not_ends
    by simp
qed

text \<open>
  Claim C4, as stated, fails at the empty string: the reply is not the reject one.
\<close>

theorem dfa_empty_invalid_input:
  "check_dfa_ends_01 [] = Invalid_input \<and> check_dfa_ends_01 [] \<noteq> Rejected"
  by (simp add: check_dfa_ends_01_def fullmatch_binary_def)

text \<open>
  Claim C4, amended: the empty string gets the invalid-input reply, and every
  one-character string over \<open>0\<close>/\<open>1\<close> is rejected.
\<close>

theorem check_dfa_ends_01_short:
  "check_dfa_ends_01 [] = Invalid_input \<and>
   (c = CHR ''0'' \<or> c = CHR ''1'' \<longrightarrow> check_dfa_ends_01 [c] = Rejected)"
  by (auto simp: check_dfa_ends_01_def fullmatch_binary_def endswith_def)

theorem check_dfa_ends_01_short_witness:
  "check_dfa_ends_01 ''0'' = Rejected \<and> check_dfa_ends_01 ''1'' = Rejected"
  using check_dfa_ends_01_short [of "CHR ''0''"] check_dfa_ends_01_short [of "CHR ''1''"]
  by simp

lemma all_le_Suc: "(\<forall>k\<le>Suc n. P k) \<longleftrightarrow> P 0 \<and> (\<forall>k\<le>n. P (Suc k))"
  by (metis Suc_le_mono le0 not0_implies_Suc)

text \<open>
  The loop with a stack of \<open>n\<close> opening parentheses accepts exactly when no prefix of the
  rest closes more than \<open>n\<close> plus what it opens, and the whole rest closes \<open>n\<close> more
  than it opens.
\<close>

lemma pda_loop_iff:
  "set stack \<subseteq> {CHR ''(''} \<Longrightarrow>
   pda_loop stack s = Balanced \<longleftrightarrow>
     (\<forall>k\<le>length s. count_list (take k s) CHR '')''
         \<le> length stack + count_list (take k s) CHR ''('')
      \<and> length stack + count_list s CHR ''('' = count_list s CHR '')''"
proof (induction s arbitrary: stack)
  case Nil
  then show ?case by simp
next
  case (Cons ch rest)
  consider (opn) "ch = CHR ''(''" | (cls) "ch = CHR '')''"
    | (other) "ch \<noteq> CHR ''(''" "ch \<noteq> CHR '')''"
    by blast
  then show ?case
  proof cases
    case opn
    have "set (stack @ [ch]) \<subseteq> {CHR ''(''}" using Cons.prems opn by simp
    from Cons.IH [OF this] show ?thesis using opn by (simp add: all_le_Suc)
  next
    case cls
    show ?thesis
    proof (cases "stack = []")
      case True
      have "\<not> (\<forall>k\<le>length (ch # rest). count_list (take k (ch # rest)) CHR '')''
              \<le> length stack + count_list (take k (ch # rest)) CHR ''('')"
        using True cls by (auto intro!: exI [of _ 1])
      then show ?thesis using True cls by simp
    next
      case False
      have sub: "set (butlast stack) \<subseteq> {CHR ''(''}"
        using Cons.prems by (meson in_set_butlastD subset_iff)
      have len: "length stack = Suc (length (butlast stack))" using False by simp
      from Cons.IH [OF sub] show ?thesis using cls False
        by (simp add: all_le_Suc len del: length_butlast)
    qed
  next
    case other
    from Cons.IH [OF Cons.prems] show ?thesis using other by (simp add: all_le_Suc)
  qed
qed

lemma pda_loop_filter: "pda_loop stack (filter is_paren s) = pda_loop stack s"
  by (induction s arbitrary: stack) (auto simp: is_paren_def)

text \<open>
  Claim C2: \<open>check_pda_balanced\<close> accepts exactly the strings in which every prefix has
  at least as many opening as closing parentheses and the totals are equal; the
  characters other than the two parentheses have no effect on the reply.
\<close>

theorem check_pda_balanced_correct:
  "(check_pda_balanced s = Balanced \<longleftrightarrow>
      (\<forall>k\<le>length s. count_list (take k s) CHR '')'' \<le> count_list (take k s) CHR ''('')
       \<and> count_list s CHR ''('' = count_list s CHR '')'') \<and>
   (check_pda_balanced s \<noteq> Balanced \<longleftrightarrow> check_pda_balanced s = Unbalanced) \<and>
   check_pda_balanced (filter is_paren s) = check_pda_balanced s"
proof -
  have "pda_loop stack s = Balanced \<or> pda_loop stack s = Unbalanced" for stack
    by (induction stack s rule: pda_loop.induct) auto
  then have "check_pda_balanced s = Balanced \<or> check_pda_balanced s = Unbalanced"
    by (simp add: check_pda_balanced_def)
  then show ?thesis
    using pda_loop_iff [of "[]" s]
    by (auto simp: check_pda_balanced_def pda_loop_filter)
qed

theorem check_pda_balanced_correct_witness:
  "check_pda_balanced ''(a(b))'' = Balanced \<and>
   count_list ''(a(b))'' CHR ''('' = count_list ''(a(b))'' CHR '')'' \<and>
   check_pda_balanced ''(())'' = Balanced \<and>
   check_pda_balanced ''())('' = Unbalanced"
proof -
  note good = check_pda_balanced_correct [of "''(a(b))''"]
  note bad = check_pda_balanced_correct [of "''())(''"]
  have run: "check_pda_balanced ''(a(b))'' = Balanced"
    by (simp add: check_pda_balanced_def)
  have flt: "filter is_paren ''(a(b))'' = ''(())''"
    by (simp add: is_paren_def)
  have pre: "\<not> (\<forall>k\<le>length ''())(''. count_list (take k ''())('') CHR '')''
                 \<le> count_list (take k ''())('') CHR ''('')"
    by (simp add: all_le_Suc)
  from good run have counts: "count_list ''(a(b))'' CHR ''('' = count_list ''(a(b))'' CHR '')''"
    by blast
  from good run have inner: "check_pda_balanced ''(())'' = Balanced"
    unfolding flt by simp
  from bad pre have unb: "check_pda_balanced ''())('' = Unbalanced"
    by blast
  from run counts inner unb show ?thesis by blast
qed


section \<open>Properties of the dialogue history\<close>

lemma deque_append_length:
  "length xs \<le> maxlen \<Longrightarrow> length (deque_append xs x) \<le> maxlen"
  by (auto simp: deque_append_def Let_def)

lemma apply_dialogue_op_length:
  "length (history d) \<le> maxlen \<Longrightarrow> length (history (apply_dialogue_op d p)) \<le> maxlen"
  by (cases p) (simp_all add: add_def clear_def deque_append_length)

lemma run_dialogue_length:
  "length (history d) \<le> maxlen \<Longrightarrow> length (history (run_dialogue d ops)) \<le> maxlen"
  unfolding run_dialogue_def
  by (induction ops arbitrary: d) (simp_all add: apply_dialogue_op_length)

lemma deque_append_drop:
  "length xs \<le> maxlen \<Longrightarrow>
   deque_append xs x = drop (length (xs @ [x]) - maxlen) (xs @ [x])"
  by (cases xs) (auto simp: deque_append_def Let_def drop_Cons' maxlen_def)

lemma history_add_of:
  "history (apply_dialogue_op d (add_of t)) = deque_append (history d) t"
  by (cases t) (simp add: add_of_def add_def)

text \<open>After a run of \<open>add\<close> calls the history holds the last 30 of all turns.\<close>

lemma run_dialogue_adds:
  "length (history d) \<le> maxlen \<Longrightarrow>
   history (run_dialogue d (map add_of ts)) =
     drop (length (history d @ ts) - maxlen) (history d @ ts)"
proof (induction ts arbitrary: d)
  case Nil
  then show ?case by (simp add: run_dialogue_def)
next
  case (Cons t ts)
  let ?d = "apply_dialogue_op d (add_of t)"
  have len: "length (history ?d) \<le> maxlen"
    using Cons.prems by (simp add: history_add_of deque_append_length)
  have h: "history ?d = drop (Suc (length (history d)) - maxlen) (history d @ [t])"
    using Cons.prems by (simp add: history_add_of deque_append_drop)
  have "history (run_dialogue d (map add_of (t # ts))) =
        history (run_dialogue ?d (map add_of ts))"
    by (simp add: run_dialogue_def)
  also have "\<dots> = drop (length (history ?d @ ts) - maxlen) (history ?d @ ts)"
    by (rule Cons.IH [OF len])
  also have "\<dots> = drop (length (history d @ t # ts) - maxlen) (history d @ t # ts)"
  proof (cases "length (history d) < maxlen")
    case True
    then show ?thesis by (simp add: h)
  next
    case False
    with Cons.prems have eq: "length (history d) = maxlen" by simp
    then have "history d \<noteq> []" by (auto simp: maxlen_def)
    then obtain a as where as: "history d = a # as" by (cases "history d") auto
    show ?thesis using eq by (simp add: h as drop_Cons')
  qed
  finally show ?case .
qed

lemma hd_tl_nth: "length ts = 31 \<Longrightarrow> hd (tl ts) = ts ! 1"
  by (cases ts; cases "tl ts") auto

text \<open>
  Claim C6: from the empty history, no sequence of \<open>add\<close> and \<open>clear\<close> calls makes the
  history longer than 30; after 31 \<open>add\<close> calls it holds 30 turns, the oldest of them
  the one added second (all but the first, in order); \<open>clear\<close> then leaves none.
\<close>

theorem dialogue_history_bounded_fifo:
  "length (history (run_dialogue new_dialogue ops)) \<le> 30 \<and>
   (length ts = 31 \<longrightarrow>
      length (history (run_dialogue new_dialogue (map add_of ts))) = 30 \<and>
      hd (history (run_dialogue new_dialogue (map add_of ts))) = ts ! 1 \<and>
      history (run_dialogue new_dialogue (map add_of ts)) = tl ts \<and>
      length (history (clear (run_dialogue new_dialogue (map add_of ts)))) = 0)"
proof -
  have bound: "length (history (run_dialogue new_dialogue ops)) \<le> 30"
    using run_dialogue_length [of new_dialogue ops] by (simp add: new_dialogue_def maxlen_def)
  have fifo: "history (run_dialogue new_dialogue (map add_of ts)) = tl ts" if "length ts = 31"
    using run_dialogue_adds [of new_dialogue ts] that
    by (simp add: new_dialogue_def maxlen_def drop_Suc)
  show ?thesis
    using bound fifo hd_tl_nth [of ts] by (simp add: clear_def)
qed

theorem dialogue_history_bounded_fifo_witness:
  "length (map sample_turn [0..<31]) = 31 \<and>
   hd (history (run_dialogue new_dialogue (map add_of (map sample_turn [0..<31])))) = sample_turn 1 \<and>
   length (history (run_dialogue new_dialogue (map add_of (map sample_turn [0..<31])))) = 30"
proof -
  have len: "length (map sample_turn [0..<31]) = 31" by simp
  have nth: "map sample_turn [0..<31] ! 1 = sample_turn 1"
    using nth_map [of 1 "[0..<31]" sample_turn] by simp
  from dialogue_history_bounded_fifo [of "[]" "map sample_turn [0..<31]"] len
  have "length (history (run_dialogue new_dialogue (map add_of (map sample_turn [0..<31])))) = 30"
    and "hd (history (run_dialogue new_dialogue (map add_of (map sample_turn [0..<31])))) =
           map sample_turn [0..<31] ! 1"
    by blast+
  with len nth show ?thesis by (simp only: simp_thms)
qed


section \<open>Properties of the text primitives\<close>

lemma of_char_lower_char:
  "of_char (lower_char c) =
     (let n = (of_char c :: nat)
      in if (65 \<le> n \<and> n \<le> 90) \<or> (192 \<le> n \<and> n \<le> 222 \<and> n \<noteq> 215) then n + 32 else n)"
  by (auto simp: lower_char_def Let_def of_char_of)

lemma lower_char_eq_iff:
  fixes d :: char
  assumes "(of_char d :: nat) < 65 \<or> (90 < (of_char d :: nat) \<and> (of_char d :: nat) < 97)
     \<or> (122 < (of_char d :: nat) \<and> (of_char d :: nat) < 192)"
  shows "lower_char c = d \<longleftrightarrow> c = d"
proof -
  have "lower_char c = d \<longleftrightarrow> (of_char (lower_char c) :: nat) = of_char d"
    by (simp only: of_char_eq_iff)
  also have "\<dots> \<longleftrightarrow> (of_char c :: nat) = of_char d"
    unfolding of_char_lower_char using assms by (auto simp: Let_def)
  also have "\<dots> \<longleftrightarrow> c = d"
    by (simp only: of_char_eq_iff)
  finally show ?thesis .
qed

lemma lower_char_colon_iff: "lower_char c = CHR '':'' \<longleftrightarrow> c = CHR '':''"
  by (rule lower_char_eq_iff) simp

lemma colon_in_lower: "CHR '':'' \<in> set (lower t) \<longleftrightarrow> CHR '':'' \<in> set t"
  unfolding lower_def set_map image_iff by (metis lower_char_colon_iff)

lemma match_ignorecase_iff:
  "match_ignorecase p s = Some r \<longleftrightarrow> (\<exists>w. s = w @ r \<and> lower w = p)"
proof (induction p s rule: match_ignorecase.induct)
  case (1 s)
  then show ?case by (auto simp: lower_def)
next
  case (2 p ps)
  then show ?case by (auto simp: lower_def)
next
  case (3 p ps c cs)
  show ?case
  proof
    assume "match_ignorecase (p # ps) (c # cs) = Some r"
    then have "lower_char c = p" and "match_ignorecase ps cs = Some r"
      by (auto split: if_splits)
    with 3 obtain w where "cs = w @ r" "lower w = ps" by auto
    with \<open>lower_char c = p\<close> have "c # cs = (c # w) @ r \<and> lower (c # w) = p # ps"
      by (simp add: lower_def)
    then show "\<exists>w. c # cs = w @ r \<and> lower w = p # ps" by blast
  next
    assume "\<exists>w. c # cs = w @ r \<and> lower w = p # ps"
    then obtain w where w: "c # cs = w @ r" "lower w = p # ps" by blast
    then obtain w' where w': "w = c # w'" "lower_char c = p" "lower w' = ps" "cs = w' @ r"
      by (cases w) (auto simp: lower_def)
    with 3 show "match_ignorecase (p # ps) (c # cs) = Some r" by auto
  qed
qed

lemma split_all_nonempty: "split_all sep s \<noteq> []"
  by (induction s) (auto split: list.splits)

lemma hd_split_all: "hd (split_all sep s) = takeWhile (\<lambda>c. c \<noteq> sep) s"
  by (induction s) (auto split: list.splits simp: split_all_nonempty)

lemma join_split_all: "join [sep] (split_all sep s) = s"
proof (induction s)
  case Nil
  then show ?case by simp
next
  case (Cons c cs)
  obtain p ps where p: "split_all sep cs = p # ps"
    using split_all_nonempty [of sep cs] by (cases "split_all sep cs") auto
  show ?case using Cons p by (cases ps) auto
qed

lemma join_tl_split_all:
  "join [sep] (drop 1 (split_all sep s)) = drop 1 (dropWhile (\<lambda>c. c \<noteq> sep) s)"
proof (induction s)
  case Nil
  then show ?case by simp
next
  case (Cons c cs)
  obtain p ps where p: "split_all sep cs = p # ps"
    using split_all_nonempty [of sep cs] by (cases "split_all sep cs") auto
  show ?case
  proof (cases "c = sep")
    case True
    then show ?thesis using join_split_all [of sep cs] by simp
  next
    case False
    then show ?thesis using Cons p by simp
  qed
qed

lemma notspace_colon: "\<not> isspace CHR '':''"
  by (simp add: isspace_def)

lemma strip_lstrip: "strip (lstrip v) = strip v"
  by (simp add: strip_def lstrip_def)

lemma match_string_field_iff:
  "match_string_field s = Some g \<longleftrightarrow>
     (\<exists>w sp v. s = w @ sp @ '':'' @ v \<and> lower w = ''string'' \<and> list_all isspace sp \<and> g = lstrip v)"
proof
  assume m: "match_string_field s = Some g"
  then obtain r where r: "match_ignorecase ''string'' s = Some r"
    by (auto simp: match_string_field_def split: option.splits)
  then obtain w where w: "s = w @ r" "lower w = ''string''"
    using match_ignorecase_iff by blast
  from m r obtain r' where r': "dropWhile isspace r = CHR '':'' # r'" "g = dropWhile isspace r'"
    by (auto simp: match_string_field_def split: list.splits if_splits)
  then have "r = takeWhile isspace r @ '':'' @ r'"
    by (simp add: dropWhile_eq_Cons_conv)
  moreover have "list_all isspace (takeWhile isspace r)"
    by (simp add: list_all_iff) (meson set_takeWhileD)
  ultimately show "\<exists>w sp v. s = w @ sp @ '':'' @ v \<and> lower w = ''string'' \<and> list_all isspace sp \<and> g = lstrip v"
    using w r' unfolding lstrip_def by blast
next
  assume "\<exists>w sp v. s = w @ sp @ '':'' @ v \<and> lower w = ''string'' \<and> list_all isspace sp \<and> g = lstrip v"
  then obtain w sp v where *: "s = w @ sp @ '':'' @ v" "lower w = ''string''" "list_all isspace sp" "g = lstrip v"
    by blast
  then have "match_ignorecase ''string'' s = Some (sp @ '':'' @ v)"
    using match_ignorecase_iff by blast
  moreover have "dropWhile isspace (sp @ '':'' @ v) = CHR '':'' # v"
    using * notspace_colon by (simp add: list_all_iff dropWhile_append2)
  ultimately show "match_string_field s = Some g"
    using * by (simp add: match_string_field_def lstrip_def)
qed

lemma ex_le_Suc: "(\<exists>k\<le>Suc n. P k) \<longleftrightarrow> P 0 \<or> (\<exists>k\<le>n. P (Suc k))"
  using all_le_Suc [of n "\<lambda>k. \<not> P k"] by blast

lemma all_less_Suc: "(\<forall>j<Suc k. P j) \<longleftrightarrow> P 0 \<and> (\<forall>j<k. P (Suc j))"
  by (metis Suc_less_eq less_Suc_eq_0_disj)

lemma search_string_field_None_iff:
  "search_string_field s = None \<longleftrightarrow> (\<forall>i\<le>length s. match_string_field (drop i s) = None)"
  by (induction s) (auto simp: all_le_Suc split: option.splits)

lemma search_string_field_Some_iff:
  "search_string_field s = Some g \<longleftrightarrow>
     (\<exists>i\<le>length s. match_string_field (drop i s) = Some g \<and>
        (\<forall>j<i. match_string_field (drop j s) = None))"
proof (induction s)
  case Nil
  then show ?case by simp
next
  case (Cons c cs)
  show ?case
  proof (cases "match_string_field (c # cs)")
    case None
    then show ?thesis
      using Cons by (simp add: ex_le_Suc all_less_Suc)
  next
    case (Some a)
    then show ?thesis
      by (auto simp: ex_le_Suc all_less_Suc)
  qed
qed

lemma string_field_at_match:
  "string_field_at rest i v \<Longrightarrow> match_string_field (drop i rest) = Some (lstrip v)"
  unfolding string_field_at_def match_string_field_iff by blast

lemma no_string_field_at_match:
  "i \<le> length rest \<Longrightarrow> (\<forall>v. \<not> string_field_at rest i v) \<Longrightarrow> match_string_field (drop i rest) = None"
proof (rule ccontr)
  assume i: "i \<le> length rest" and no: "\<forall>v. \<not> string_field_at rest i v"
    and "match_string_field (drop i rest) \<noteq> None"
  then obtain g where "match_string_field (drop i rest) = Some g" by blast
  then obtain w sp v where "drop i rest = w @ sp @ '':'' @ v" "lower w = ''string''" "list_all isspace sp"
    unfolding match_string_field_iff by blast
  with i have "string_field_at rest i v" unfolding string_field_at_def by blast
  with no show False by blast
qed


section \<open>Properties of the intent classifier\<close>

lemma split_once_first:
  assumes "sep \<notin> set pre"
  shows "split_once sep (pre @ sep # tail) = [pre, tail]"
proof -
  have "takeWhile (\<lambda>c. c \<noteq> sep) (pre @ sep # tail) = pre"
    using assms by (auto simp: takeWhile_tail)
  moreover have "dropWhile (\<lambda>c. c \<noteq> sep) (pre @ sep # tail) = sep # tail"
    using assms by (auto simp: dropWhile_append3)
  ultimately show ?thesis by (simp add: split_once_def)
qed

lemma lower_append: "lower (xs @ ys) = lower xs @ lower ys"
  by (simp add: lower_def)

lemma lower_colon: "lower (CHR '':'' # tail) = CHR '':'' # lower tail"
  by (simp add: lower_def lower_char_colon_iff)

lemma regex_branch:
  assumes t: "strip text = pre @ '':'' @ tail" and pre: "lower pre = ''regex''"
    and daily: "\<not> contains ''daily conversation'' (lower (strip text))"
               "\<not> contains ''everyday chat'' (lower (strip text))"
  shows "classify text =
     (case classify_regex (strip text) of Inl e \<Rightarrow> Inr (General, []) | Inr r \<Rightarrow> Inr r)"
    and "split_once CHR '':'' (strip text) = [pre, tail]"
proof -
  have l: "lower (strip text) = ''regex:'' @ lower tail"
    using t pre by (simp add: lower_append lower_colon)
  have "CHR '':'' \<notin> set (lower pre)" using pre by simp
  then have "CHR '':'' \<notin> set pre" by (simp add: colon_in_lower)
  then show "split_once CHR '':'' (strip text) = [pre, tail]"
    using t split_once_first [of "CHR '':''" pre tail] by simp
  show "classify text =
     (case classify_regex (strip text) of Inl e \<Rightarrow> Inr (General, []) | Inr r \<Rightarrow> Inr r)"
    using daily unfolding classify_def Let_def l [symmetric]
    by (simp add: l startswith_def)
qed

lemma classify_regex_fields:
  assumes "split_once CHR '':'' t = [pre, tail]"
  shows "classify_regex t =
     Inr (Regex, [(''pattern'', strip (takeWhile (\<lambda>c. c \<noteq> CHR '';'') tail)),
                  (''string'', (case search_string_field (tl (dropWhile (\<lambda>c. c \<noteq> CHR '';'') tail)) of
                                  Some g \<Rightarrow> strip g | None \<Rightarrow> []))])"
proof -
  obtain p ps where p: "split_all CHR '';'' tail = p # ps"
    using split_all_nonempty [of "CHR '';''" tail] by (cases "split_all CHR '';'' tail") auto
  have hd: "takeWhile (\<lambda>c. c \<noteq> CHR '';'') tail = p"
    using hd_split_all [of "CHR '';''" tail] p by simp
  have rest: "tl (dropWhile (\<lambda>c. c \<noteq> CHR '';'') tail) = join '';'' ps"
    using join_tl_split_all [of "CHR '';''" tail] p by (simp add: drop_Suc)
  show ?thesis
    using assms by (simp add: classify_regex_def item_def p Let_def hd rest)
qed

text \<open>
  The trimmed, lower-cased text starts with \<open>regex:\<close> exactly when the trimmed text is
  the letters of \<open>regex\<close> in any case, a colon, and a tail.
\<close>

lemma startswith_regex_iff:
  "startswith (lower t) ''regex:'' \<longleftrightarrow> (\<exists>pre tail. t = pre @ '':'' @ tail \<and> lower pre = ''regex'')"
proof
  assume s: "startswith (lower t) ''regex:''"
  have six: "length ''regex:'' = 6" by simp
  from s have tk: "take 6 (lower t) = ''regex:''" unfolding startswith_def six .
  then have "length (take 6 (lower t)) = 6" by simp
  then have len: "6 \<le> length t" by (simp add: lower_def)
  have "take 5 (take 6 (lower t)) = ''regex''" by (simp only: tk) simp
  then have pre: "lower (take 5 t) = ''regex''" by (simp add: lower_def take_map)
  have "take 6 (lower t) ! 5 = CHR '':''" by (simp only: tk) simp
  then have "lower_char (t ! 5) = CHR '':''" using len by (simp add: lower_def)
  then have c: "t ! 5 = CHR '':''" by (simp add: lower_char_colon_iff)
  have "t = take 5 t @ t ! 5 # drop 6 t"
    using id_take_nth_drop [of 5 t] len by simp
  with c have "t = take 5 t @ '':'' @ drop 6 t" by simp
  with pre show "\<exists>pre tail. t = pre @ '':'' @ tail \<and> lower pre = ''regex''" by blast
next
  assume "\<exists>pre tail. t = pre @ '':'' @ tail \<and> lower pre = ''regex''"
  then obtain pre tail where "t = pre @ '':'' @ tail" "lower pre = ''regex''" by blast
  then have "lower t = ''regex:'' @ lower tail"
    by (simp add: lower_append lower_colon)
  then show "startswith (lower t) ''regex:''" by (simp add: startswith_def)
qed

lemma match_string_field_Nil: "match_string_field [] = None"
  by (simp add: match_string_field_def)

text \<open>
  Claim C5, as stated, fails where the rest holds \<open>string:\<close> twice: the parameter is
  what follows the first occurrence, not what follows the final one.
\<close>

theorem regex_string_not_after_final_marker:
  "classify ''regex: a; string: x string: y'' =
     Inr (Regex, [(''pattern'', ''a''), (''string'', ''x string: y'')]) \<and>
   string_after_final_marker '' string: x string: y'' = ''y''"
  by code_simp

text \<open>
  Claim C5, amended: for a text whose trimmed form is \<open>regex\<close> (in any case), a colon
  and a tail, and which holds neither \<open>daily conversation\<close> nor \<open>everyday chat\<close>,
  \<open>classify\<close> returns the regex intent; the pattern is the tail up to its first
  semicolon, trimmed; with \<open>rest\<close> the tail after that semicolon, the string parameter
  is what follows the first (leftmost) occurrence in \<open>rest\<close> of the letters of
  \<open>string\<close> in any case, optional white space and a colon, trimmed; it is empty when
  there is no such occurrence.
\<close>

theorem classify_regex_first_field:
  fixes tail :: string
  defines "rest \<equiv> tl (dropWhile (\<lambda>c. c \<noteq> CHR '';'') tail)"
  assumes t: "strip text = pre @ '':'' @ tail" and pre: "lower pre = ''regex''"
    and daily: "\<not> contains ''daily conversation'' (lower (strip text))"
               "\<not> contains ''everyday chat'' (lower (strip text))"
  shows "\<exists>s. classify text =
            Inr (Regex, [(''pattern'', strip (takeWhile (\<lambda>c. c \<noteq> CHR '';'') tail)), (''string'', s)]) \<and>
          (\<forall>i v. string_field_at rest i v \<and> (\<forall>j<i. \<forall>u. \<not> string_field_at rest j u) \<longrightarrow> s = strip v) \<and>
          ((\<forall>i v. \<not> string_field_at rest i v) \<longrightarrow> s = [])"
proof -
  define s where "s = (case search_string_field rest of Some g \<Rightarrow> strip g | None \<Rightarrow> [])"
  have cls: "classify text =
      Inr (Regex, [(''pattern'', strip (takeWhile (\<lambda>c. c \<noteq> CHR '';'') tail)), (''string'', s)])"
    using regex_branch [OF t pre daily] classify_regex_fields [of "strip text" pre tail]
    by (simp add: s_def rest_def)
  have first: "s = strip v"
    if at: "string_field_at rest i v" and before: "\<forall>j<i. \<forall>u. \<not> string_field_at rest j u" for i v
  proof -
    have i: "i \<le> length rest" using at by (simp add: string_field_at_def)
    have here: "match_string_field (drop i rest) = Some (lstrip v)"
      using at by (rule string_field_at_match)
    have "match_string_field (drop j rest) = None" if "j < i" for j
      using that i before by (intro no_string_field_at_match) auto
    with here i have "search_string_field rest = Some (lstrip v)"
      unfolding search_string_field_Some_iff by blast
    then show ?thesis by (simp add: s_def strip_lstrip)
  qed
  have none: "s = []" if "\<forall>i v. \<not> string_field_at rest i v"
  proof -
    have "search_string_field rest = None"
      unfolding search_string_field_None_iff using that no_string_field_at_match by blast
    then show ?thesis by (simp add: s_def)
  qed
  from cls first none show ?thesis by blast
qed

theorem classify_regex_first_field_witness:
  "classify ''regex: a+; string: aaa'' = Inr (Regex, [(''pattern'', ''a+''), (''string'', ''aaa'')])"
proof -
  have t: "strip ''regex: a+; string: aaa'' = ''regex'' @ '':'' @ '' a+; string: aaa''"
    by code_simp
  have pre: "lower ''regex'' = ''regex''"
    by code_simp
  have d1: "\<not> contains ''daily conversation'' (lower (strip ''regex: a+; string: aaa''))"
    by code_simp
  have d2: "\<not> contains ''everyday chat'' (lower (strip ''regex: a+; string: aaa''))"
    by code_simp
  have rest: "tl (dropWhile (\<lambda>c. c \<noteq> CHR '';'') '' a+; string: aaa'') = '' string: aaa''"
    by simp
  have pat: "strip (takeWhile (\<lambda>c. c \<noteq> CHR '';'') '' a+; string: aaa'') = ''a+''"
    by code_simp
  have at: "string_field_at '' string: aaa'' 1 '' aaa''"
  proof -
    have "drop 1 '' string: aaa'' = ''string'' @ [] @ '':'' @ '' aaa''" by simp
    moreover have "lower ''string'' = ''string''" by code_simp
    moreover have "list_all isspace []" by simp
    moreover have "1 \<le> length '' string: aaa''" by simp
    ultimately show ?thesis unfolding string_field_at_def by blast
  qed
  have m0: "match_string_field '' string: aaa'' = None"
    by code_simp
  have before: "\<forall>j<1. \<forall>u. \<not> string_field_at '' string: aaa'' j u"
    using string_field_at_match [of "'' string: aaa''" 0] m0 by auto
  have v: "strip '' aaa'' = ''aaa''"
    by code_simp
  from classify_regex_first_field [OF t pre d1 d2]
  obtain s where cls: "classify ''regex: a+; string: aaa'' = Inr (Regex, [(''pattern'', ''a+''), (''string'', s)])"
    and first: "\<forall>i v. string_field_at '' string: aaa'' i v \<and> (\<forall>j<i. \<forall>u. \<not> string_field_at '' string: aaa'' j u) \<longrightarrow> s = strip v"
    unfolding rest pat by blast
  from first at before have "s = strip '' aaa''" by blast
  with cls v show ?thesis by simp
qed

text \<open>
  Claim C10: for a text whose trimmed form is \<open>regex\<close> (in any case), a colon and a
  tail without semicolon, and which holds neither \<open>daily conversation\<close> nor
  \<open>everyday chat\<close>, \<open>classify\<close> returns the regex intent with the trimmed tail as
  pattern and the empty string parameter; the bare input \<open>regex:\<close> gives the empty
  pattern and the empty string.
\<close>

theorem classify_regex_no_semicolon:
  "(strip text = pre @ '':'' @ tail \<and> lower pre = ''regex'' \<and> CHR '';'' \<notin> set tail \<and>
      \<not> contains ''daily conversation'' (lower (strip text)) \<and>
      \<not> contains ''everyday chat'' (lower (strip text))
    \<longrightarrow> classify text = Inr (Regex, [(''pattern'', strip tail), (''string'', [])])) \<and>
   classify ''regex:'' = Inr (Regex, [(''pattern'', []), (''string'', [])])"
proof (intro conjI impI)
  assume a: "strip text = pre @ '':'' @ tail \<and> lower pre = ''regex'' \<and> CHR '';'' \<notin> set tail \<and>
      \<not> contains ''daily conversation'' (lower (strip text)) \<and>
      \<not> contains ''everyday chat'' (lower (strip text))"
  then have t: "strip text = pre @ '':'' @ tail" and pre: "lower pre = ''regex''"
    and semi: "CHR '';'' \<notin> set tail"
    and daily: "\<not> contains ''daily conversation'' (lower (strip text))"
               "\<not> contains ''everyday chat'' (lower (strip text))"
    by blast+
  have tw: "takeWhile (\<lambda>c. c \<noteq> CHR '';'') tail = tail"
    and dw: "dropWhile (\<lambda>c. c \<noteq> CHR '';'') tail = []"
    using semi by auto
  have "classify text =
     (case classify_regex (strip text) of Inl e \<Rightarrow> Inr (General, []) | Inr r \<Rightarrow> Inr r)"
    using t pre daily by (rule regex_branch)
  moreover have "split_once CHR '':'' (strip text) = [pre, tail]"
    using t pre daily by (rule regex_branch)
  then have "classify_regex (strip text) = Inr (Regex, [(''pattern'', strip tail), (''string'', [])])"
    by (simp add: classify_regex_fields tw dw match_string_field_Nil)
  ultimately show "classify text = Inr (Regex, [(''pattern'', strip tail), (''string'', [])])"
    by simp
next
  show "classify ''regex:'' = Inr (Regex, [(''pattern'', []), (''string'', [])])"
    by code_simp
qed

theorem classify_regex_no_semicolon_witness:
  "classify ''Regex: ab*c '' = Inr (Regex, [(''pattern'', ''ab*c''), (''string'', [])])"
proof -
  have t: "strip ''Regex: ab*c '' = ''Regex'' @ '':'' @ '' ab*c''" by code_simp
  have pre: "lower ''Regex'' = ''regex''" by code_simp
  have semi: "CHR '';'' \<notin> set '' ab*c''" by simp
  have d1: "\<not> contains ''daily conversation'' (lower (strip ''Regex: ab*c ''))"
    by code_simp
  have d2: "\<not> contains ''everyday chat'' (lower (strip ''Regex: ab*c ''))"
    by code_simp
  have v: "strip '' ab*c'' = ''ab*c''" by code_simp
  from classify_regex_no_semicolon [of "''Regex: ab*c ''" "''Regex''" "'' ab*c''"] t pre semi d1 d2
  have "classify ''Regex: ab*c '' = Inr (Regex, [(''pattern'', strip '' ab*c''), (''string'', [])])"
    by blast
  with v show ?thesis by simp
qed


section \<open>Properties of the sentence check\<close>

lemma lstrip_decomp: "s = takeWhile isspace s @ lstrip s"
  by (simp add: lstrip_def)

lemma rstrip_decomp: "s = rstrip s @ rev (takeWhile isspace (rev s))"
proof -
  have "rstrip s @ rev (takeWhile isspace (rev s)) =
        rev (takeWhile isspace (rev s) @ dropWhile isspace (rev s))"
    unfolding rstrip_def rev_append ..
  also have "\<dots> = s" by (simp only: takeWhile_dropWhile_id rev_rev_ident)
  finally show ?thesis by (rule sym)
qed

text \<open>A text is its stripped form between two runs of white space.\<close>

lemma strip_decomp:
  "\<exists>a b. s = a @ strip s @ b \<and> list_all isspace a \<and> list_all isspace b"
proof -
  let ?a = "takeWhile isspace s" and ?b = "rev (takeWhile isspace (rev (lstrip s)))"
  have "lstrip s = strip s @ ?b"
    unfolding strip_def by (rule rstrip_decomp)
  then have "s = ?a @ strip s @ ?b"
    using lstrip_decomp [of s] by simp
  moreover have "list_all isspace ?a" "list_all isspace ?b"
    by (auto simp: list_all_iff dest: set_takeWhileD)
  ultimately show ?thesis by blast
qed

lemma strip_Nil_iff: "strip s = [] \<longleftrightarrow> list_all isspace s"
proof
  assume "strip s = []"
  then show "list_all isspace s"
    using strip_decomp [of s] by (auto simp: list_all_iff)
next
  assume "list_all isspace s"
  then have "lstrip s = []" by (simp add: lstrip_def list_all_iff)
  then show "strip s = []" by (simp add: strip_def rstrip_def)
qed

lemma split_ws_from_spaces:
  "list_all isspace sp \<Longrightarrow> split_ws_from cur sp = (if cur = [] then [] else [cur])"
  by (induction sp arbitrary: cur) auto

lemma split_ws_from_append_spaces:
  "list_all isspace sp \<Longrightarrow> split_ws_from cur (s @ sp) = split_ws_from cur s"
  by (induction s arbitrary: cur) (auto simp: split_ws_from_spaces)

lemma split_ws_from_prepend_spaces:
  "list_all isspace sp \<Longrightarrow> split_ws_from [] (sp @ s) = split_ws_from [] s"
  by (induction sp) auto

lemma split_ws_strip: "split_ws (strip s) = split_ws s"
proof -
  obtain a b where "s = a @ strip s @ b" "list_all isspace a" "list_all isspace b"
    using strip_decomp by blast
  then have "split_ws s = split_ws_from [] (a @ (strip s @ b))" by (simp add: split_ws_def)
  also have "\<dots> = split_ws_from [] (strip s @ b)"
    using \<open>list_all isspace a\<close> by (rule split_ws_from_prepend_spaces)
  also have "\<dots> = split_ws_from [] (strip s)"
    using \<open>list_all isspace b\<close> by (rule split_ws_from_append_spaces)
  finally show ?thesis by (simp add: split_ws_def)
qed

lemma match_word_iff:
  "match_word prev w s \<longleftrightarrow>
     (\<exists>v. s = w @ v \<and> word_boundary (prev_char prev w) (first_char v))"
proof (induction prev w s rule: match_word.induct)
  case (1 prev s)
  then show ?case by (simp add: prev_char_def)
next
  case (2 prev p ps)
  then show ?case by simp
next
  case (3 prev p ps c cs)
  have "prev_char (Some c) ps = prev_char prev (c # ps)"
    by (simp add: prev_char_def)
  with 3 show ?case by auto
qed

lemma occurs_between_Cons:
  "occurs_between prev (c # cs) w (x # u) v \<longleftrightarrow> x = c \<and> occurs_between (Some c) cs w u v"
  by (auto simp: occurs_between_def prev_char_def)

lemma occurs_between_here:
  "word_boundary prev (first_char s) \<and> match_word prev w s \<longleftrightarrow> (\<exists>v. occurs_between prev s w [] v)"
  by (auto simp: occurs_between_def match_word_iff prev_char_def)

lemma occurs_between_Nil:
  "occurs_between prev [] w u v \<longleftrightarrow> u = [] \<and> occurs_between prev [] w [] v"
  by (auto simp: occurs_between_def)

lemma search_words_iff:
  "search_words ws prev s \<longleftrightarrow> (\<exists>w\<in>set ws. \<exists>u v. occurs_between prev s w u v)"
proof (induction s arbitrary: prev)
  case Nil
  have "search_words ws prev [] \<longleftrightarrow>
          (\<exists>w\<in>set ws. word_boundary prev (first_char []) \<and> match_word prev w [])"
    by (auto simp: list_ex_iff first_char_def)
  also have "\<dots> \<longleftrightarrow> (\<exists>w\<in>set ws. \<exists>v. occurs_between prev [] w [] v)"
    by (simp only: occurs_between_here)
  also have "\<dots> \<longleftrightarrow> (\<exists>w\<in>set ws. \<exists>u v. occurs_between prev [] w u v)"
    using occurs_between_Nil by blast
  finally show ?case .
next
  case (Cons c cs)
  have "search_words ws prev (c # cs) \<longleftrightarrow>
          (\<exists>w\<in>set ws. word_boundary prev (first_char (c # cs)) \<and> match_word prev w (c # cs))
          \<or> search_words ws (Some c) cs"
    by (auto simp: list_ex_iff first_char_def)
  also have "\<dots> \<longleftrightarrow> (\<exists>w\<in>set ws. \<exists>v. occurs_between prev (c # cs) w [] v)
          \<or> (\<exists>w\<in>set ws. \<exists>u v. occurs_between (Some c) cs w u v)"
    by (simp only: occurs_between_here Cons.IH)
  also have "\<dots> \<longleftrightarrow> (\<exists>w\<in>set ws. \<exists>u v. occurs_between prev (c # cs) w u v)"
  proof
    assume "(\<exists>w\<in>set ws. \<exists>v. occurs_between prev (c # cs) w [] v)
          \<or> (\<exists>w\<in>set ws. \<exists>u v. occurs_between (Some c) cs w u v)"
    then show "\<exists>w\<in>set ws. \<exists>u v. occurs_between prev (c # cs) w u v"
    proof
      assume "\<exists>w\<in>set ws. \<exists>v. occurs_between prev (c # cs) w [] v"
      then show ?thesis by blast
    next
      assume "\<exists>w\<in>set ws. \<exists>u v. occurs_between (Some c) cs w u v"
      then obtain w u v where "w \<in> set ws" "occurs_between (Some c) cs w u v" by blast
      then have "occurs_between prev (c # cs) w (c # u) v"
        by (simp add: occurs_between_Cons)
      with \<open>w \<in> set ws\<close> show ?thesis by blast
    qed
  next
    assume "\<exists>w\<in>set ws. \<exists>u v. occurs_between prev (c # cs) w u v"
    then obtain w u v where w: "w \<in> set ws" and o: "occurs_between prev (c # cs) w u v" by blast
    show "(\<exists>w\<in>set ws. \<exists>v. occurs_between prev (c # cs) w [] v)
          \<or> (\<exists>w\<in>set ws. \<exists>u v. occurs_between (Some c) cs w u v)"
    proof (cases u)
      case Nil
      with w o show ?thesis by blast
    next
      case (Cons x u')
      with o have "occurs_between (Some c) cs w u' v"
        by (simp add: occurs_between_Cons)
      with w show ?thesis by blast
    qed
  qed
  finally show ?case .
qed

lemma isspace_not_word: "isspace c \<Longrightarrow> \<not> is_word_char c"
  by (auto simp: isspace_def is_word_char_def Let_def)

lemma isspace_lower_char: "isspace (lower_char c) = isspace c"
  unfolding isspace_def of_char_lower_char by (auto simp: Let_def)

lemma occurs_between_None:
  assumes "w \<noteq> []" "is_word_char (hd w)" "is_word_char (last w)"
  shows "occurs_between None s w u v \<longleftrightarrow>
     s = u @ w @ v \<and> (u = [] \<or> \<not> is_word_char (last u)) \<and> (v = [] \<or> \<not> is_word_char (hd v))"
proof -
  obtain x xs where w: "w = x # xs" using assms(1) by (cases w) auto
  have 1: "word_boundary (prev_char None u) (first_char (w @ v)) \<longleftrightarrow> (u = [] \<or> \<not> is_word_char (last u))"
    using assms(2) by (simp add: w word_boundary_def prev_char_def first_char_def is_word_def)
  have 2: "word_boundary (prev_char (prev_char None u) w) (first_char v) \<longleftrightarrow> (v = [] \<or> \<not> is_word_char (hd v))"
    using assms(1,3) by (cases v) (simp_all add: word_boundary_def prev_char_def first_char_def is_word_def)
  show ?thesis unfolding occurs_between_def 1 2 ..
qed

lemma aux_verbs_words: "\<forall>w\<in>set aux_verbs. w \<noteq> [] \<and> is_word_char (hd w) \<and> is_word_char (last w)"
  by (simp add: aux_verbs_def is_word_char_def)

lemma search_aux_verb_iff:
  "search_aux_verb s \<longleftrightarrow> (\<exists>w\<in>set aux_verbs. occurs_as_word w s)"
proof -
  have "(\<exists>u v. occurs_between None s w u v) \<longleftrightarrow> occurs_as_word w s" if "w \<in> set aux_verbs" for w
  proof -
    from that aux_verbs_words have "w \<noteq> []" "is_word_char (hd w)" "is_word_char (last w)"
      by blast+
    then show ?thesis by (simp add: occurs_between_None occurs_as_word_def)
  qed
  then show ?thesis
    unfolding search_aux_verb_def search_words_iff by blast
qed

lemma occurs_as_word_Cons:
  assumes c: "\<not> is_word_char c" and w: "w \<noteq> []" "is_word_char (hd w)"
  shows "occurs_as_word w (c # m) \<longleftrightarrow> occurs_as_word w m"
proof
  assume "occurs_as_word w (c # m)"
  then obtain u v where o: "c # m = u @ w @ v" "u = [] \<or> \<not> is_word_char (last u)"
      "v = [] \<or> \<not> is_word_char (hd v)"
    unfolding occurs_as_word_def by blast
  show "occurs_as_word w m"
  proof (cases u)
    case Nil
    with o(1) w(1) have "c = hd w" by (cases w) auto
    with c w(2) show ?thesis by simp
  next
    case (Cons x u')
    with o have "m = u' @ w @ v" "u' = [] \<or> \<not> is_word_char (last u')"
      by (auto split: if_splits)
    with o(3) show ?thesis unfolding occurs_as_word_def by blast
  qed
next
  assume "occurs_as_word w m"
  then obtain u v where o: "m = u @ w @ v" "u = [] \<or> \<not> is_word_char (last u)"
      "v = [] \<or> \<not> is_word_char (hd v)"
    unfolding occurs_as_word_def by blast
  then have "c # m = (c # u) @ w @ v" "\<not> is_word_char (last (c # u))"
    using c by auto
  with o(3) show "occurs_as_word w (c # m)" unfolding occurs_as_word_def by blast
qed

lemma occurs_as_word_snoc:
  assumes c: "\<not> is_word_char c" and w: "w \<noteq> []" "is_word_char (last w)"
  shows "occurs_as_word w (m @ [c]) \<longleftrightarrow> occurs_as_word w m"
proof
  assume "occurs_as_word w (m @ [c])"
  then obtain u v where o: "m @ [c] = u @ w @ v" "u = [] \<or> \<not> is_word_char (last u)"
      "v = [] \<or> \<not> is_word_char (hd v)"
    unfolding occurs_as_word_def by blast
  show "occurs_as_word w m"
  proof (cases v rule: rev_cases)
    case Nil
    with o(1) have "last (m @ [c]) = last (u @ w)" by simp
    with w(1) have "c = last w" by simp
    with c w(2) show ?thesis by simp
  next
    case (snoc v' x)
    with o(1) have "(m @ [c]) = (u @ w @ v') @ [x]" by simp
    then have m: "m = u @ w @ v'" by (simp only: append1_eq_conv)
    have "v' = [] \<or> \<not> is_word_char (hd v')"
      using o(3) snoc by (cases v') auto
    with m o(2) show ?thesis unfolding occurs_as_word_def by blast
  qed
next
  assume "occurs_as_word w m"
  then obtain u v where o: "m = u @ w @ v" "u = [] \<or> \<not> is_word_char (last u)"
      "v = [] \<or> \<not> is_word_char (hd v)"
    unfolding occurs_as_word_def by blast
  then have "m @ [c] = u @ w @ (v @ [c])" "\<not> is_word_char (hd (v @ [c]))"
    using c by (cases v; auto)+
  with o(2) show "occurs_as_word w (m @ [c])" unfolding occurs_as_word_def by blast
qed

lemma occurs_as_word_padded:
  assumes "list_all isspace a" "list_all isspace b"
    and w: "w \<noteq> []" "is_word_char (hd w)" "is_word_char (last w)"
  shows "occurs_as_word w (a @ m @ b) \<longleftrightarrow> occurs_as_word w m"
proof -
  have right: "occurs_as_word w (m @ b) \<longleftrightarrow> occurs_as_word w m" if "list_all isspace b" for b
    using that
  proof (induction b rule: rev_induct)
    case Nil
    then show ?case by simp
  next
    case (snoc c b)
    then have "\<not> is_word_char c" by (simp add: isspace_not_word)
    then have "occurs_as_word w ((m @ b) @ [c]) \<longleftrightarrow> occurs_as_word w (m @ b)"
      using w by (intro occurs_as_word_snoc)
    with snoc show ?case by simp
  qed
  have left: "occurs_as_word w (a @ n) \<longleftrightarrow> occurs_as_word w n" if "list_all isspace a" for a n
    using that
  proof (induction a)
    case Nil
    then show ?case by simp
  next
    case (Cons c a)
    then have "\<not> is_word_char c" by (simp add: isspace_not_word)
    then have "occurs_as_word w (c # (a @ n)) \<longleftrightarrow> occurs_as_word w (a @ n)"
      using w by (intro occurs_as_word_Cons)
    with Cons show ?case by simp
  qed
  show ?thesis using left [OF assms(1)] right [OF assms(2)] by simp
qed

lemma occurs_as_word_lower_strip:
  assumes "w \<noteq> []" "is_word_char (hd w)" "is_word_char (last w)"
  shows "occurs_as_word w (lower (strip s)) \<longleftrightarrow> occurs_as_word w (lower s)"
proof -
  obtain a b where s: "s = a @ strip s @ b" and ab: "list_all isspace a" "list_all isspace b"
    using strip_decomp by blast
  have "lower s = lower (a @ strip s @ b)" using s by simp
  then have l: "lower s = lower a @ lower (strip s) @ lower b"
    by (simp only: lower_append)
  have "list_all isspace (lower a)" "list_all isspace (lower b)"
    using ab by (simp_all add: lower_def list_all_iff isspace_lower_char)
  then have "occurs_as_word w (lower a @ lower (strip s) @ lower b) \<longleftrightarrow>
             occurs_as_word w (lower (strip s))"
    using assms by (rule occurs_as_word_padded)
  then show ?thesis unfolding l by (rule sym)
qed

text \<open>
  Claim C9: without the tagger, an empty or white-space-only sentence gets the empty
  reply; a sentence of fewer than three white-space-separated tokens is too short;
  any other sentence is probably valid exactly when its lower-cased text holds one of
  the auxiliary, modal or copula forms as a whole word, and seems incomplete otherwise.
\<close>

theorem parse_sentence_fallback:
  "parse_sentence None sentence =
     Inr (if list_all isspace sentence then Empty_sentence
          else if length (split_ws sentence) < 3 then Too_short
          else if (\<exists>w\<in>set aux_verbs. occurs_as_word w (lower sentence)) then Probably_valid
          else Seems_incomplete)"
proof -
  have "search_aux_verb (lower (strip sentence)) \<longleftrightarrow>
          (\<exists>w\<in>set aux_verbs. occurs_as_word w (lower sentence))"
    unfolding search_aux_verb_iff
    using aux_verbs_words occurs_as_word_lower_strip [of _ sentence] by blast
  then show ?thesis
    by (simp add: parse_sentence_def Let_def strip_Nil_iff split_ws_strip)
qed

theorem parse_sentence_fallback_witness:
  "parse_sentence None ''The cat is here'' = Inr Probably_valid \<and>
   (\<exists>w\<in>set aux_verbs. occurs_as_word w (lower ''The cat is here'')) \<and>
   parse_sentence None ''The cat sleeps'' = Inr Seems_incomplete \<and>
   parse_sentence None ''is it'' = Inr Too_short \<and>
   parse_sentence None ''   '' = Inr Empty_sentence"
proof -
  have run: "parse_sentence None ''The cat is here'' = Inr Probably_valid" by code_simp
  have sp: "\<not> list_all isspace ''The cat is here''" by code_simp
  have tk: "\<not> length (split_ws ''The cat is here'') < 3" by code_simp
  from parse_sentence_fallback [of "''The cat is here''"] run sp tk
  have occ: "\<exists>w\<in>set aux_verbs. occurs_as_word w (lower ''The cat is here'')"
    by (simp split: if_splits)
  have r2: "parse_sentence None ''The cat sleeps'' = Inr Seems_incomplete" by code_simp
  have r3: "parse_sentence None ''is it'' = Inr Too_short" by code_simp
  have r4: "parse_sentence None ''   '' = Inr Empty_sentence" by code_simp
  from run occ r2 r3 r4 show ?thesis by blast
qed


section \<open>Properties of the orchestrator\<close>

lemma after_colon_cases:
  "after_colon tag key t = Inr (i, ps) \<Longrightarrow> i = tag \<and> (\<exists>x. ps = [(key, x)])"
  by (auto simp: after_colon_def split: sum.splits)

lemma after_colon_total:
  "CHR '':'' \<in> set t \<Longrightarrow> \<exists>x. after_colon tag key t = Inr (tag, [(key, x)])"
  by (simp add: after_colon_def split_once_def item_def)

lemma classify_regex_cases:
  "classify_regex t = Inr (i, ps) \<Longrightarrow> i = Regex \<and> (\<exists>p s. ps = [(''pattern'', p), (''string'', s)])"
  by (auto simp: classify_regex_def Let_def split: sum.splits)

lemma startswith_colon:
  assumes "startswith (lower t) p" "CHR '':'' \<in> set p"
  shows "CHR '':'' \<in> set t"
proof -
  have "set (take (length p) (lower t)) \<subseteq> set (lower t)" by (rule set_take_subset)
  with assms have "CHR '':'' \<in> set (lower t)" by (auto simp: startswith_def)
  then show ?thesis by (simp add: colon_in_lower)
qed

lemma c_help: "lower (strip txt) = ''help'' \<Longrightarrow> classify txt = Inr (Help, [])"
  by (simp add: classify_def)

lemma c_clear: "lower (strip txt) = ''clear'' \<Longrightarrow> classify txt = Inr (Command, [(''cmd'', ''clear'')])"
  by (simp add: classify_def)

lemma classify_prefixes:
  assumes "lower (strip txt) \<noteq> ''help''" "lower (strip txt) \<noteq> ''clear''"
    "\<not> contains ''daily conversation'' (lower (strip txt))"
    "\<not> contains ''everyday chat'' (lower (strip txt))"
  shows "classify txt =
     (if startswith (lower (strip txt)) ''parse:'' then after_colon Parse ''sentence'' (strip txt)
      else if startswith (lower (strip txt)) ''dfa:'' then after_colon Dfa ''input'' (strip txt)
      else if startswith (lower (strip txt)) ''pda:'' then after_colon Pda ''input'' (strip txt)
      else if startswith (lower (strip txt)) ''regex:'' then
        (case classify_regex (strip txt) of
           Inl e \<Rightarrow> Inr (General, [])
         | Inr r \<Rightarrow> Inr r)
      else if match_math (lower (strip txt)) then Inr (Math, [(''expression'', strip txt)])
      else Inr (General, []))"
  unfolding classify_def Let_def using assms by (simp only: if_False simp_thms)

lemma c_daily:
  assumes "lower (strip txt) \<noteq> ''help''" "lower (strip txt) \<noteq> ''clear''"
    "contains ''daily conversation'' (lower (strip txt)) \<or> contains ''everyday chat'' (lower (strip txt))"
  shows "classify txt = Inr (Daily, [(''message'', strip txt)])"
  unfolding classify_def Let_def using assms by (simp only: if_False if_True simp_thms)

text \<open>\<open>classify\<close> never raises, and each intent comes with its parameters.\<close>

lemma classify_cases: "\<exists>i ps. classify txt = Inr (i, ps) \<and> classified txt i ps"
proof -
  let ?t = "strip txt" and ?l = "lower (strip txt)"
  consider (hlp) "?l = ''help''"
    | (clr) "?l \<noteq> ''help''" "?l = ''clear''"
    | (daily) "?l \<noteq> ''help''" "?l \<noteq> ''clear''"
        "contains ''daily conversation'' ?l \<or> contains ''everyday chat'' ?l"
    | (other) "?l \<noteq> ''help''" "?l \<noteq> ''clear''"
        "\<not> contains ''daily conversation'' ?l" "\<not> contains ''everyday chat'' ?l"
    by blast
  then show ?thesis
  proof cases
    case hlp
    then have "classify txt = Inr (Help, [])" by (rule c_help)
    moreover have "classified txt Help []" by (simp add: classified_def)
    ultimately show ?thesis by blast
  next
    case clr
    then have "classify txt = Inr (Command, [(''cmd'', ''clear'')])" by (intro c_clear)
    moreover have "classified txt Command [(''cmd'', ''clear'')]" by (simp add: classified_def)
    ultimately show ?thesis by blast
  next
    case daily
    then have "classify txt = Inr (Daily, [(''message'', ?t)])" by (rule c_daily)
    moreover have "classified txt Daily [(''message'', ?t)]" by (simp add: classified_def)
    ultimately show ?thesis by blast
  next
    case other
    note unfold = classify_prefixes [OF other]
    consider (parse) "startswith ?l ''parse:''"
      | (dfa) "\<not> startswith ?l ''parse:''" "startswith ?l ''dfa:''"
      | (pda) "\<not> startswith ?l ''parse:''" "\<not> startswith ?l ''dfa:''" "startswith ?l ''pda:''"
      | (regex) "\<not> startswith ?l ''parse:''" "\<not> startswith ?l ''dfa:''"
          "\<not> startswith ?l ''pda:''" "startswith ?l ''regex:''"
      | (math) "\<not> startswith ?l ''parse:''" "\<not> startswith ?l ''dfa:''"
          "\<not> startswith ?l ''pda:''" "\<not> startswith ?l ''regex:''" "match_math ?l"
      | (general) "\<not> startswith ?l ''parse:''" "\<not> startswith ?l ''dfa:''"
          "\<not> startswith ?l ''pda:''" "\<not> startswith ?l ''regex:''" "\<not> match_math ?l"
      by blast
    then show ?thesis
    proof cases
      case parse
      then have "CHR '':'' \<in> set ?t" by (rule startswith_colon) simp
      then obtain x where "after_colon Parse ''sentence'' ?t = Inr (Parse, [(''sentence'', x)])"
        using after_colon_total by blast
      with parse have "classify txt = Inr (Parse, [(''sentence'', x)])"
        unfolding unfold by (simp only: if_True)
      moreover have "classified txt Parse [(''sentence'', x)]" by (simp add: classified_def)
      ultimately show ?thesis by blast
    next
      case dfa
      from dfa(2) have "CHR '':'' \<in> set ?t" by (rule startswith_colon) simp
      then obtain x where "after_colon Dfa ''input'' ?t = Inr (Dfa, [(''input'', x)])"
        using after_colon_total by blast
      with dfa have "classify txt = Inr (Dfa, [(''input'', x)])"
        unfolding unfold by (simp only: if_True if_False)
      moreover have "classified txt Dfa [(''input'', x)]" by (simp add: classified_def)
      ultimately show ?thesis by blast
    next
      case pda
      from pda(3) have "CHR '':'' \<in> set ?t" by (rule startswith_colon) simp
      then obtain x where "after_colon Pda ''input'' ?t = Inr (Pda, [(''input'', x)])"
        using after_colon_total by blast
      with pda have "classify txt = Inr (Pda, [(''input'', x)])"
        unfolding unfold by (simp only: if_True if_False)
      moreover have "classified txt Pda [(''input'', x)]" by (simp add: classified_def)
      ultimately show ?thesis by blast
    next
      case regex
      then have c: "classify txt =
          (case classify_regex ?t of Inl e \<Rightarrow> Inr (General, []) | Inr r \<Rightarrow> Inr r)"
        unfolding unfold by (simp only: if_True if_False)
      show ?thesis
      proof (cases "classify_regex ?t")
        case (Inl e)
        with c have "classify txt = Inr (General, [])" by simp
        moreover have "classified txt General []" by (simp add: classified_def)
        ultimately show ?thesis by blast
      next
        case (Inr r)
        obtain i ps where r: "r = (i, ps)" by (cases r)
        with Inr have "i = Regex \<and> (\<exists>p s. ps = [(''pattern'', p), (''string'', s)])"
          using classify_regex_cases by blast
        then have "classified txt i ps" by (auto simp: classified_def)
        moreover have "classify txt = Inr (i, ps)" using c Inr r by simp
        ultimately show ?thesis by blast
      qed
    next
      case math
      then have "classify txt = Inr (Math, [(''expression'', ?t)])"
        unfolding unfold by (simp only: if_True if_False)
      moreover have "classified txt Math [(''expression'', ?t)]"
        using math by (simp add: classified_def)
      ultimately show ?thesis by blast
    next
      case general
      then have "classify txt = Inr (General, [])"
        unfolding unfold by (simp only: if_True if_False)
      moreover have "classified txt General []" by (simp add: classified_def)
      ultimately show ?thesis by blast
    qed
  qed
qed

lemma deque_append_twice:
  assumes "length h \<le> 30"
  shows "deque_append (deque_append h u) a = last_n 30 (h @ [u, a])"
proof -
  consider (full) "length h = 30" | (almost) "length h = 29" | (room) "length h < 29"
    using assms by linarith
  then show ?thesis
  proof cases
    case full
    then obtain x y ys where h: "h = x # y # ys"
      by (cases h; cases "tl h") auto
    with full have "length ys = 28" by simp
    then show ?thesis
      by (simp add: h deque_append_def maxlen_def last_n_def)
  next
    case almost
    then obtain x xs where h: "h = x # xs" by (cases h) auto
    with almost have "length xs = 28" by simp
    then show ?thesis
      by (simp add: h deque_append_def maxlen_def last_n_def)
  next
    case room
    then show ?thesis
      by (simp add: deque_append_def maxlen_def last_n_def)
  qed
qed

lemma record_turn_eq:
  assumes "length (history (dialogue cb)) \<le> 30"
  shows "record_turn cb txt reply now1 now2 =
     cb\<lparr>dialogue := \<lparr>history = last_n 30 (history (dialogue cb) @
                          [user_turn txt now1, assistant_turn reply now2])\<rparr>\<rparr>"
  using deque_append_twice [OF assms, of "user_turn txt now1" "assistant_turn reply now2"]
  by (simp add: record_turn_def add_def user_turn_def assistant_turn_def)

lemma deque_append_last_two:
  "last_n 2 (deque_append (deque_append h u) a) = [u, a]"
proof -
  have "last_n 2 (xs @ [u, a]) = [u, a]" for xs :: "'a list"
    by (simp add: last_n_def)
  moreover have "\<exists>xs. deque_append (deque_append h u) a = xs @ [u, a]"
  proof (cases h)
    case Nil
    then show ?thesis by (simp add: deque_append_def maxlen_def)
  next
    case (Cons x xs)
    then show ?thesis
      by (cases xs) (auto simp: deque_append_def maxlen_def Let_def)
  qed
  ultimately show ?thesis by auto
qed

lemma clear_eq: "clear d = \<lparr>history = []\<rparr>"
  by (cases d) (simp add: clear_def)

lemma chat_Command:
  "classify txt = Inr (Command, ps) \<Longrightarrow>
   chat env cb txt now1 now2 = Inr (Conversation_cleared, cb\<lparr>dialogue := \<lparr>history = []\<rparr>\<rparr>)"
  using classify_cases [of "txt"] by (auto simp: chat_def classified_def clear_eq)

lemma chat_Help:
  "classify txt = Inr (Help, ps) \<Longrightarrow> chat env cb txt now1 now2 = Inr (Help_text, cb)"
  by (simp add: chat_def)

text \<open>The reply of the tools and of the collaborator, for the other intents.\<close>

lemma chat_Daily:
  "classify txt = Inr (Daily, ps) \<Longrightarrow>
   \<exists>reply. chat env cb txt now1 now2 = Inr (reply, record_turn cb txt reply now1 now2)"
  by (simp add: chat_def Let_def)

lemma chat_tools:
  assumes "classify txt = Inr (intent, ps)" "intent \<noteq> Command" "intent \<noteq> Help" "intent \<noteq> Daily"
  shows "chat env cb txt now1 now2 =
     (case (if intent = Parse
              then parse_sentence (nlp (engine cb)) (get ps ''sentence'' txt)
            else if intent = Dfa
              then Inr (check_dfa_ends_01 (get ps ''input'' txt))
            else if intent = Pda
              then Inr (check_pda_balanced (get ps ''input'' txt))
            else if intent = Regex
              then test_regex env (get ps ''pattern'' []) (get ps ''string'' [])
            else if intent = Math
              then Inr (evaluate_math env (get ps ''expression'' txt))
            else Inr Fallback_text) of
        Inl e \<Rightarrow> Inl e
      | Inr reply \<Rightarrow> Inr (reply, record_turn cb txt reply now1 now2))"
  using assms by (simp add: chat_def)

lemma chat_returns:
  assumes "classify txt = Inr (intent, ps)" "intent \<noteq> Command" "intent \<noteq> Help"
  shows "(\<forall>reply cb'. chat env cb txt now1 now2 = Inr (reply, cb') \<longrightarrow>
            cb' = record_turn cb txt reply now1 now2) \<and>
         (\<forall>e. chat env cb txt now1 now2 = Inl e \<longleftrightarrow>
            intent = Regex \<and> test_regex env (get ps ''pattern'' []) (get ps ''string'' []) = Inl e \<or>
            intent = Parse \<and> parse_sentence (nlp (engine cb)) (get ps ''sentence'' txt) = Inl e)"
proof (cases "intent = Daily")
  case True
  then obtain reply where "chat env cb txt now1 now2 = Inr (reply, record_turn cb txt reply now1 now2)"
    using assms(1) chat_Daily by blast
  with True show ?thesis by simp
next
  case False
  note c = chat_tools [OF assms False, of env cb now1 now2]
  show ?thesis
    unfolding c by (cases intent) (auto split: sum.splits)
qed

text \<open>
  Claim C7, as stated, fails when the history is full: a call with the general intent
  on a history of 30 turns appends its two turns and drops the two oldest turns, so
  the rest of the history does not stay as it was.
\<close>

theorem chat_full_history_evicts:
  "classify ''hello'' = Inr (General, []) \<and>
   chat offline_env (sample_bot (map sample_turn [0..<30])) ''hello'' ''t1'' ''t2'' =
     Inr (Fallback_text,
          sample_bot (map sample_turn [2..<30] @
                        [user_turn ''hello'' ''t1'', assistant_turn Fallback_text ''t2''])) \<and>
   hd (map sample_turn [2..<30] @ [user_turn ''hello'' ''t1'', assistant_turn Fallback_text ''t2''])
     \<noteq> hd (map sample_turn [0..<30])"
proof -
  have c: "classify ''hello'' = Inr (General, [])" by code_simp
  have len: "length (history (dialogue (sample_bot (map sample_turn [0..<30])))) \<le> 30"
    by (simp add: sample_bot_def)
  have "drop 2 [0..<30] = [0 + 2..<30]" by (rule drop_upt)
  then have d: "drop 2 (map sample_turn [0..<30]) = map sample_turn [2..<30]"
    by (simp only: drop_map add_0)
  have "last_n 30 (map sample_turn [0..<30] @ [u, a]) = map sample_turn [2..<30] @ [u, a]" for u a
  proof -
    have "last_n 30 (map sample_turn [0..<30] @ [u, a]) = drop 2 (map sample_turn [0..<30] @ [u, a])"
      by (simp add: last_n_def)
    also have "\<dots> = drop 2 (map sample_turn [0..<30]) @ [u, a]" by simp
    finally show ?thesis by (simp only: d)
  qed
  then have r: "record_turn (sample_bot (map sample_turn [0..<30])) ''hello'' Fallback_text ''t1'' ''t2'' =
      sample_bot (map sample_turn [2..<30] @
                    [user_turn ''hello'' ''t1'', assistant_turn Fallback_text ''t2''])"
    unfolding record_turn_eq [OF len] by (simp add: sample_bot_def)
  have "chat offline_env (sample_bot (map sample_turn [0..<30])) ''hello'' ''t1'' ''t2'' =
      Inr (Fallback_text,
           record_turn (sample_bot (map sample_turn [0..<30])) ''hello'' Fallback_text ''t1'' ''t2'')"
    using chat_tools [OF c, of offline_env "sample_bot (map sample_turn [0..<30])" "''t1''" "''t2''"]
    by simp
  moreover have "hd (map sample_turn [2..<30] @ [u, a]) \<noteq> hd (map sample_turn [0..<30])" for u a
    by (simp add: upt_conv_Cons sample_turn_def del: upt_Suc)
  ultimately show ?thesis using c r by simp
qed

text \<open>
  Claim C7, amended: \<open>classify\<close> always gives an intent. For the clear command the
  history is emptied and the confirmation returned, with no turn recorded; for help
  the help text is returned and the chatbot is unchanged; for every other intent a
  call that returns a reply leaves the chatbot unchanged except for the history, which
  becomes the last 30 turns of the old history followed by one user turn with the text
  and one assistant turn with the reply. A call returns a reply unless the pattern
  test (regex intent) or the tagger (parse intent) lets an exception through; then
  nothing is recorded.
\<close>

theorem chat_history_effect:
  assumes len: "length (history (dialogue cb)) \<le> 30"
  shows "\<exists>intent ps. classify txt = Inr (intent, ps) \<and>
     (intent = Command \<longrightarrow>
        chat env cb txt now1 now2 = Inr (Conversation_cleared, cb\<lparr>dialogue := \<lparr>history = []\<rparr>\<rparr>)) \<and>
     (intent = Help \<longrightarrow> chat env cb txt now1 now2 = Inr (Help_text, cb)) \<and>
     (intent \<noteq> Command \<and> intent \<noteq> Help \<longrightarrow>
        (\<forall>reply cb'. chat env cb txt now1 now2 = Inr (reply, cb') \<longrightarrow>
            cb' = cb\<lparr>dialogue := \<lparr>history = last_n 30 (history (dialogue cb) @
                     [user_turn txt now1, assistant_turn reply now2])\<rparr>\<rparr>) \<and>
        (\<forall>e. chat env cb txt now1 now2 = Inl e \<longleftrightarrow>
            intent = Regex \<and> test_regex env (get ps ''pattern'' []) (get ps ''string'' []) = Inl e \<or>
            intent = Parse \<and> parse_sentence (nlp (engine cb)) (get ps ''sentence'' txt) = Inl e))"
proof -
  obtain intent ps where c: "classify txt = Inr (intent, ps)"
    using classify_cases by blast
  have 1: "chat env cb txt now1 now2 = Inr (Conversation_cleared, cb\<lparr>dialogue := \<lparr>history = []\<rparr>\<rparr>)"
    if "intent = Command"
    using c that by (intro chat_Command [of _ ps]) simp
  have 2: "chat env cb txt now1 now2 = Inr (Help_text, cb)" if "intent = Help"
    using c that by (intro chat_Help [of _ ps]) simp
  have 3: "(\<forall>reply cb'. chat env cb txt now1 now2 = Inr (reply, cb') \<longrightarrow>
            cb' = cb\<lparr>dialogue := \<lparr>history = last_n 30 (history (dialogue cb) @
                     [user_turn txt now1, assistant_turn reply now2])\<rparr>\<rparr>) \<and>
        (\<forall>e. chat env cb txt now1 now2 = Inl e \<longleftrightarrow>
            intent = Regex \<and> test_regex env (get ps ''pattern'' []) (get ps ''string'' []) = Inl e \<or>
            intent = Parse \<and> parse_sentence (nlp (engine cb)) (get ps ''sentence'' txt) = Inl e)"
    if "intent \<noteq> Command" "intent \<noteq> Help"
    using chat_returns [OF c that, of env cb now1 now2] record_turn_eq [OF len]
    by simp
  from c 1 2 3 show ?thesis by blast
qed

theorem chat_history_effect_witness:
  "chat offline_env (sample_bot [sample_turn 0]) ''dfa: 1101'' ''t1'' ''t2'' =
     Inr (Accepted, sample_bot [sample_turn 0, user_turn ''dfa: 1101'' ''t1'',
                                assistant_turn Accepted ''t2'']) \<and>
   chat offline_env (sample_bot [sample_turn 0]) '' Clear '' ''t1'' ''t2'' =
     Inr (Conversation_cleared, sample_bot []) \<and>
   chat offline_env (sample_bot [sample_turn 0]) ''help'' ''t1'' ''t2'' =
     Inr (Help_text, sample_bot [sample_turn 0])"
proof -
  let ?cb = "sample_bot [sample_turn 0]"
  have len: "length (history (dialogue ?cb)) \<le> 30" by (simp add: sample_bot_def)
  have c1: "classify ''dfa: 1101'' = Inr (Dfa, [(''input'', ''1101'')])" by code_simp
  have c2: "classify '' Clear '' = Inr (Command, [(''cmd'', ''clear'')])" by code_simp
  have c3: "classify ''help'' = Inr (Help, [])" by code_simp
  have run: "chat offline_env ?cb ''dfa: 1101'' ''t1'' ''t2'' =
      Inr (Accepted, record_turn ?cb ''dfa: 1101'' Accepted ''t1'' ''t2'')"
  proof -
    have "check_dfa_ends_01 ''1101'' = Accepted" by code_simp
    then show ?thesis
      using chat_tools [OF c1, of offline_env ?cb "''t1''" "''t2''"] by (simp add: get_def)
  qed
  from chat_history_effect [OF len, of "''dfa: 1101''" offline_env "''t1''" "''t2''"] c1 run
  have "record_turn ?cb ''dfa: 1101'' Accepted ''t1'' ''t2'' =
      ?cb\<lparr>dialogue := \<lparr>history = last_n 30 (history (dialogue ?cb) @
                     [user_turn ''dfa: 1101'' ''t1'', assistant_turn Accepted ''t2''])\<rparr>\<rparr>"
    by auto
  then have dfa: "chat offline_env ?cb ''dfa: 1101'' ''t1'' ''t2'' =
     Inr (Accepted, sample_bot [sample_turn 0, user_turn ''dfa: 1101'' ''t1'',
                                assistant_turn Accepted ''t2''])"
    using run by (simp add: sample_bot_def last_n_def)
  from chat_history_effect [OF len, of "'' Clear ''" offline_env "''t1''" "''t2''"] c2
  have clr: "chat offline_env ?cb '' Clear '' ''t1'' ''t2'' = Inr (Conversation_cleared, sample_bot [])"
    by (auto simp: sample_bot_def)
  from chat_history_effect [OF len, of "''help''" offline_env "''t1''" "''t2''"] c3
  have hlp: "chat offline_env ?cb ''help'' ''t1'' ''t2'' = Inr (Help_text, ?cb)"
    by auto
  from dfa clr hlp show ?thesis by blast
qed

text \<open>
  Claim C8: without credential the collaborator is not available; a call classified as
  daily then returns the not-configured reply, and the last two turns of the history
  are the user turn with the text and the assistant turn with that reply, the rest of
  the chatbot being unchanged.
\<close>

theorem chat_daily_not_configured:
  "(api_key (perplexity cb) = None \<or> api_key (perplexity cb) = Some []
      \<longrightarrow> \<not> is_available env (perplexity cb)) \<and>
   (\<not> is_available env (perplexity cb) \<and> classify txt = Inr (Daily, ps) \<longrightarrow>
      (\<exists>cb'. chat env cb txt now1 now2 = Inr (Not_configured, cb') \<and>
         last_n 2 (history (dialogue cb')) =
           [user_turn txt now1, assistant_turn Not_configured now2] \<and>
         perplexity cb' = perplexity cb \<and> engine cb' = engine cb))"
proof (intro conjI impI)
  assume "api_key (perplexity cb) = None \<or> api_key (perplexity cb) = Some []"
  then show "\<not> is_available env (perplexity cb)"
    by (auto simp: is_available_def)
next
  assume a: "\<not> is_available env (perplexity cb) \<and> classify txt = Inr (Daily, ps)"
  let ?cb' = "record_turn cb txt Not_configured now1 now2"
  have "chat env cb txt now1 now2 = Inr (Not_configured, ?cb')"
    using a by (simp add: chat_def Let_def)
  moreover have "last_n 2 (history (dialogue ?cb')) =
      [user_turn txt now1, assistant_turn Not_configured now2]"
    using deque_append_last_two [of "history (dialogue cb)" "user_turn txt now1"
        "assistant_turn Not_configured now2"]
    by (simp add: record_turn_def add_def user_turn_def assistant_turn_def)
  moreover have "perplexity ?cb' = perplexity cb" "engine ?cb' = engine cb"
    by (simp_all add: record_turn_def)
  ultimately show "\<exists>cb'. chat env cb txt now1 now2 = Inr (Not_configured, cb') \<and>
         last_n 2 (history (dialogue cb')) =
           [user_turn txt now1, assistant_turn Not_configured now2] \<and>
         perplexity cb' = perplexity cb \<and> engine cb' = engine cb"
    by blast
qed

theorem chat_daily_not_configured_witness:
  "classify ''daily conversation, what's up'' =
     Inr (Daily, [(''message'', ''daily conversation, what's up'')]) \<and>
   (\<exists>cb'. chat offline_env (sample_bot [sample_turn 0]) ''daily conversation, what's up'' ''t1'' ''t2'' =
            Inr (Not_configured, cb') \<and>
          last_n 2 (history (dialogue cb')) =
            [user_turn ''daily conversation, what's up'' ''t1'', assistant_turn Not_configured ''t2''])"
proof -
  have c: "classify ''daily conversation, what's up'' =
      Inr (Daily, [(''message'', ''daily conversation, what's up'')])"
    by code_simp
  have k: "api_key (perplexity (sample_bot [sample_turn 0])) = None"
    by (simp add: sample_bot_def)
  from chat_daily_not_configured [of "sample_bot [sample_turn 0]" offline_env
      "''daily conversation, what's up''" "[(''message'', ''daily conversation, what's up'')]"
      "''t1''" "''t2''"] c k
  show ?thesis by blast
qed


section \<open>Properties of the arithmetic evaluator\<close>














text \<open>A value far below the limit is decided without computing the limit.\<close>

lemma digit_limit_large: "10 ^ 18 \<le> digit_limit"
  unfolding digit_limit_def by (rule power_increasing) simp_all

lemma too_long_code [code]:
  "too_long v = (if \<bar>v\<bar> < 10 ^ 18 then False else \<bar>v\<bar> \<ge> digit_limit)"
  using digit_limit_large by (auto simp: too_long_def)


















lemma keeps_names_pass:
  "keeps_names b res \<Longrightarrow> keeps_names b (case res of Parsed e r \<Rightarrow> Parsed e r | x \<Rightarrow> x)"
  by (cases res) simp_all





















end
